theory Spec2Isabelle
  imports Main
begin

section \<open>File I/O helpers of Adblock Plus (lib/io.js)\<close>

text \<open>
  The module offers line-oriented asynchronous reading (\<open>readFromFile\<close>), chunked
  writing through a temporary file (\<open>writeToFile\<close>), and thin wrappers around the
  platform's file primitives (\<open>statFile\<close> among them). Each asynchronous operation is a
  task that runs its steps one after the other on a single thread, so an operation is
  modelled as a function on an explicit world: the stored files, the answers of the
  storage backend to the primitive calls, and the trace of everything the operation
  does that its surroundings can observe (span hooks, primitive calls, calls of the
  listener, calls of the completion callback).

  A JavaScript string is a \<^typ>\<open>string\<close>; its \<open>length\<close> is the number of its
  characters.
\<close>

subsection \<open>Values, events and the world\<close>

type_synonym path = string

text \<open>
  A value that is thrown or that rejects a promise. Errors of the file primitives carry
  the flag \<open>becauseNoSuchFile\<close>; on any other exception the property is missing, which
  the test \<open>if (e.becauseNoSuchFile)\<close> reads as false.
\<close>

datatype error = Error (becauseNoSuchFile: bool) (message: string)

datatype event =
    AsyncStart string
  | AsyncEnd string
  | AsyncDone string
  | Process "string option"
  | Callback "error option"
  | FileRead path
  | FileOpen path
  | FileWrite path string
  | FileFlush path
  | FileClose path
  | FileMove path path

text \<open>
  A failure of the storage backend: the error the primitive reports, and the state in
  which the failed call leaves the file it was working on (\<open>None\<close>: no such file).
\<close>

record fault =
  err :: error
  debris :: "string option"

record world =
  files :: "path \<rightharpoonup> string"
  fault_at :: "nat \<Rightarrow> fault option"
  calls :: nat
  trace :: "event list"

definition emit :: "event \<Rightarrow> world \<Rightarrow> world" where
  "emit e w = w\<lparr>trace := trace w @ [e]\<rparr>"

subsection \<open>The platform's primitives\<close>

text \<open>
  Modelled from the spec: the file primitives of \<open>OS.File\<close> (\<open>read\<close>, \<open>open\<close>,
  \<open>write\<close>, \<open>flush\<close>, \<open>close\<close>, \<open>move\<close>), \<open>TextEncoder\<close> and the \<open>TimeLine\<close> hooks are
  not part of lib/io.js. Every primitive call is counted and recorded; the backend
  fails the call number \<open>n\<close> when \<open>fault_at\<close> says so. A file's content is held as the
  text it decodes to, so the UTF-8 encoding and its decoding are the identity on the
  representation. \<open>read\<close> fails on a missing file, \<open>open\<close> with \<open>truncate\<close> leaves an empty
  file, \<open>write\<close> appends to the open file, and a successful \<open>move\<close> replaces the target
  by the source in one step; a failing call touches no path but the one it works on.
\<close>

definition prim_call :: "event \<Rightarrow> world \<Rightarrow> fault option \<times> world" where
  "prim_call ev w =
     (fault_at w (calls w), w\<lparr>calls := Suc (calls w), trace := trace w @ [ev]\<rparr>)"

definition leave :: "path \<Rightarrow> fault \<Rightarrow> world \<Rightarrow> world" where
  "leave p ft w = w\<lparr>files := (files w)(p := debris ft)\<rparr>"

definition encode :: "string \<Rightarrow> string" where
  "encode s = s"

definition decode :: "string \<Rightarrow> string" where
  "decode bytes = bytes"

definition os_read :: "path \<Rightarrow> world \<Rightarrow> (error + string) \<times> world" where
  "os_read p w =
     (case prim_call (FileRead p) w of
        (Some ft, w') \<Rightarrow> (Inl (err ft), w')
      | (None, w') \<Rightarrow>
          (case files w' p of
             None \<Rightarrow> (Inl (Error True ''no such file''), w')
           | Some bytes \<Rightarrow> (Inr (decode bytes), w')))"

definition os_open :: "path \<Rightarrow> world \<Rightarrow> (error + path) \<times> world" where
  "os_open p w =
     (case prim_call (FileOpen p) w of
        (Some ft, w') \<Rightarrow> (Inl (err ft), leave p ft w')
      | (None, w') \<Rightarrow> (Inr p, w'\<lparr>files := (files w')(p \<mapsto> [])\<rparr>))"

definition file_write :: "path \<Rightarrow> string \<Rightarrow> world \<Rightarrow> (error + unit) \<times> world" where
  "file_write f array w =
     (case prim_call (FileWrite f array) w of
        (Some ft, w') \<Rightarrow> (Inl (err ft), leave f ft w')
      | (None, w') \<Rightarrow>
          (case files w' f of
             None \<Rightarrow> (Inl (Error True ''no such file''), w')
           | Some old \<Rightarrow> (Inr (), w'\<lparr>files := (files w')(f \<mapsto> old @ array)\<rparr>)))"

definition file_flush :: "path \<Rightarrow> world \<Rightarrow> (error + unit) \<times> world" where
  "file_flush f w =
     (case prim_call (FileFlush f) w of
        (Some ft, w') \<Rightarrow> (Inl (err ft), leave f ft w')
      | (None, w') \<Rightarrow> (Inr (), w'))"

definition file_close :: "path \<Rightarrow> world \<Rightarrow> (error + unit) \<times> world" where
  "file_close f w =
     (case prim_call (FileClose f) w of
        (Some ft, w') \<Rightarrow> (Inl (err ft), leave f ft w')
      | (None, w') \<Rightarrow> (Inr (), w'))"

definition os_move :: "path \<Rightarrow> path \<Rightarrow> world \<Rightarrow> (error + unit) \<times> world" where
  "os_move src dst w =
     (case prim_call (FileMove src dst) w of
        (Some ft, w') \<Rightarrow> (Inl (err ft), leave src ft w')
      | (None, w') \<Rightarrow>
          (case files w' src of
             None \<Rightarrow> (Inl (Error True ''no such file''), w')
           | Some bytes \<Rightarrow> (Inr (), w'\<lparr>files := (files w')(src := None, dst \<mapsto> bytes)\<rparr>)))"

text \<open>
  The span hooks are guarded by \<open>if (timeLineID)\<close>: an absent identifier and the empty
  string are both falsy, and then no hook fires.
\<close>

definition timeLine :: "(string \<Rightarrow> event) \<Rightarrow> string option \<Rightarrow> world \<Rightarrow> world" where
  "timeLine hook timeLineID w =
     (case timeLineID of
        None \<Rightarrow> w
      | Some i \<Rightarrow> if i = [] then w else emit (hook i) w)"

subsection \<open>The lines of a string\<close>

abbreviation CR :: char where "CR \<equiv> CHR 0x0D"
abbreviation LF :: char where "LF \<equiv> CHR 0x0A"

definition isBreak :: "char \<Rightarrow> bool" where
  "isBreak c \<longleftrightarrow> c = CR \<or> c = LF"

text \<open>
  One call of \<open>regexp.exec(text)\<close> for the global pattern \<open>/([^\r\n])+/g\<close>, on the part
  of the text from \<open>lastIndex\<close> on: the leftmost match starts at the first character
  that is no line break and, \<open>+\<close> being greedy, extends over the whole run. The result
  is the match and the text behind it (the new \<open>lastIndex\<close>), or \<open>None\<close> for \<open>null\<close>.
\<close>

definition regexp_exec :: "string \<Rightarrow> (string \<times> string) option" where
  "regexp_exec s =
     (let r = dropWhile isBreak s
      in if r = [] then None
         else Some (takeWhile (\<lambda>c. \<not> isBreak c) r, dropWhile (\<lambda>c. \<not> isBreak c) r))"

function lines :: "string \<Rightarrow> string list" where
  "lines text =
     (case regexp_exec text of
        None \<Rightarrow> []
      | Some (m, rest) \<Rightarrow> m # lines rest)"
  by pat_completeness auto
termination
proof (relation "measure length")
  show "wf (measure length)"
    by simp
next
  fix s :: string and found m rest
  assume found: "regexp_exec s = Some found" and pair: "(m, rest) = found"
  let ?r = "dropWhile isBreak s"
  from found pair have ne: "?r \<noteq> []" and rest: "rest = dropWhile (\<lambda>c. \<not> isBreak c) ?r"
    by (auto simp: regexp_exec_def Let_def split: if_splits)
  from ne have "\<not> isBreak (hd ?r)"
    using hd_dropWhile by blast
  with ne have "length (dropWhile (\<lambda>c. \<not> isBreak c) ?r) < length ?r"
    by (cases ?r) (auto simp: le_imp_less_Suc length_dropWhile_le)
  moreover have "length ?r \<le> length s"
    by (rule length_dropWhile_le)
  ultimately show "(rest, s) \<in> measure length"
    using rest by simp
qed

text \<open>
  The reading of the specification: cut the text at every line-break character and
  keep the pieces that are not empty.
\<close>

fun break_fields :: "string \<Rightarrow> string list" where
  "break_fields [] = [[]]"
| "break_fields (c # cs) =
     (if isBreak c then [] # break_fields cs
      else (c # hd (break_fields cs)) # tl (break_fields cs))"

definition spec_lines :: "string \<Rightarrow> string list" where
  "spec_lines text = filter (\<lambda>t. t \<noteq> []) (break_fields text)"

subsection \<open>readFromFile\<close>

text \<open>
  The listener is an object with a method \<open>process\<close>; it has a state of its own, and a
  call may throw.
\<close>

type_synonym 's listener = "'s \<Rightarrow> string option \<Rightarrow> error option \<times> 's"

text \<open>
  The loop \<open>for (let line of this.lines(text))\<close>. The one-tick deferral after each
  line changes neither the data nor the order of the calls and leaves no event.
\<close>

fun deliver :: "'s listener \<Rightarrow> string list \<Rightarrow> 's \<Rightarrow> world \<Rightarrow> error option \<times> 's \<times> world" where
  "deliver process [] s w = (None, s, w)"
| "deliver process (line # rest) s w =
     (case process s (Some line) of
        (Some ex, s') \<Rightarrow> (Some ex, s', emit (Process (Some line)) w)
      | (None, s') \<Rightarrow> deliver process rest s' (emit (Process (Some line)) w))"

definition finish :: "string option \<Rightarrow> error option \<Rightarrow> 's \<Rightarrow> world \<Rightarrow> 's \<times> world" where
  "finish timeLineID result s w = (s, emit (Callback result) (timeLine AsyncDone timeLineID w))"

definition readFromFile :: "path \<Rightarrow> 's listener \<Rightarrow> 's \<Rightarrow> string option \<Rightarrow> world \<Rightarrow> 's \<times> world" where
  "readFromFile file process s timeLineID w =
     (case os_read file (timeLine AsyncStart timeLineID w) of
        (Inl ex, w') \<Rightarrow> finish timeLineID (Some ex) s w'
      | (Inr text, w') \<Rightarrow>
          (case deliver process (lines text) s (timeLine AsyncEnd timeLineID w') of
             (Some ex, s', w'') \<Rightarrow> finish timeLineID (Some ex) s' w''
           | (None, s', w'') \<Rightarrow>
               (case process s' None of
                  (Some ex, s'') \<Rightarrow> finish timeLineID (Some ex) s'' (emit (Process None) w'')
                | (None, s'') \<Rightarrow> finish timeLineID None s'' (emit (Process None) w''))))"

subsection \<open>writeToFile\<close>

text \<open>
  What the platform is to \<open>writeToFile\<close>: the operating system's name that decides the
  line break, the exception that \<open>new TextEncoder()\<close> throws (if it throws), and
  whether the file handle has a method \<open>flush\<close>. The fourth parameter of the source,
  \<open>timeLineID\<close>, is not used by it.
\<close>

record env =
  appinfo_OS :: string
  textEncoder :: "error option"
  flush_exposed :: bool

definition lineBreak :: "env \<Rightarrow> string" where
  "lineBreak e = (if appinfo_OS e = ''WINNT'' then [CR, LF] else [LF])"

definition BUFFER_SIZE :: nat where
  "BUFFER_SIZE = 0x8000"

record buffer =
  buf :: "string list"
  bufLen :: nat

fun join :: "string \<Rightarrow> string list \<Rightarrow> string" where
  "join sep [] = []"
| "join sep [x] = x"
| "join sep (x # y # ys) = x @ sep @ join sep (y # ys)"

text \<open>
  The closure \<open>writeChunk\<close>: the buffer is emptied and the counter set to 0 before the
  write is started, whatever becomes of the write.
\<close>

definition writeChunk :: "string \<Rightarrow> path \<Rightarrow> buffer \<Rightarrow> world \<Rightarrow> (error + unit) \<times> buffer \<times> world" where
  "writeChunk lb f b w =
     (let array = encode (join lb (buf b) @ lb);
          b' = b\<lparr>buf := [], bufLen := 0\<rparr>
      in case file_write f array w of (r, w') \<Rightarrow> (r, b', w'))"

text \<open>The statements \<open>buf.push(line); bufLen += line.length\<close>.\<close>

definition push :: "string \<Rightarrow> buffer \<Rightarrow> buffer" where
  "push line b = b\<lparr>buf := buf b @ [line], bufLen := bufLen b + length line\<rparr>"

text \<open>
  The loop \<open>for (let line in data)\<close>: \<open>data\<close> is an iterator, and the list is the
  sequence of the strings it yields.
\<close>

fun write_loop :: "string \<Rightarrow> path \<Rightarrow> string list \<Rightarrow> buffer \<Rightarrow> world \<Rightarrow> (error + unit) \<times> buffer \<times> world" where
  "write_loop lb f [] b w = (Inr (), b, w)"
| "write_loop lb f (line # rest) b w =
     (let b1 = push line b
      in if bufLen b1 \<ge> BUFFER_SIZE
         then (case writeChunk lb f b1 w of
                 (Inl e, b2, w') \<Rightarrow> (Inl e, b2, w')
               | (Inr u, b2, w') \<Rightarrow> write_loop lb f rest b2 w')
         else write_loop lb f rest b1 w)"

text \<open>The body of the task that \<open>writeToFile\<close> spawns; \<open>Inl e\<close> is a rejection with \<open>e\<close>.\<close>

definition write_task :: "env \<Rightarrow> path \<Rightarrow> string list \<Rightarrow> world \<Rightarrow> (error + unit) \<times> world" where
  "write_task e file data w =
     (let tmpPath = file @ ''.tmp''
      in case os_open tmpPath w of
           (Inl ex, w1) \<Rightarrow> (Inl ex, w1)
         | (Inr f, w1) \<Rightarrow>
      (case write_loop (lineBreak e) f data \<lparr>buf = [], bufLen = 0\<rparr> w1 of
           (Inl ex, b, w2) \<Rightarrow> (Inl ex, w2)
         | (Inr u, b, w2) \<Rightarrow>
      (case (if bufLen b \<noteq> 0 then writeChunk (lineBreak e) f b w2 else (Inr (), b, w2)) of
           (Inl ex, b', w3) \<Rightarrow> (Inl ex, w3)
         | (Inr u, b', w3) \<Rightarrow>
      (case (if flush_exposed e then file_flush f w3 else (Inr (), w3)) of
           (Inl ex, w4) \<Rightarrow> (Inl ex, w4)
         | (Inr u, w4) \<Rightarrow>
      (case file_close f w4 of
           (Inl ex, w5) \<Rightarrow> (Inl ex, w5)
         | (Inr u, w5) \<Rightarrow> os_move tmpPath file w5)))))"

text \<open>
  \<open>writeToFile\<close> itself: an exception while the task is set up goes to the callback at
  once; otherwise the task's promise calls it, with \<open>null\<close> when fulfilled and with the
  error when rejected.
\<close>

definition writeToFile :: "env \<Rightarrow> path \<Rightarrow> string list \<Rightarrow> world \<Rightarrow> world" where
  "writeToFile e file data w =
     (case textEncoder e of
        Some ex \<Rightarrow> emit (Callback (Some ex)) w
      | None \<Rightarrow>
          (case write_task e file data w of
             (Inl ex, w') \<Rightarrow> emit (Callback (Some ex)) w'
           | (Inr u, w') \<Rightarrow> emit (Callback None) w'))"

subsection \<open>statFile\<close>

datatype 'a outcome = Throws error | Rejects error | Resolves 'a

record info =
  isDir :: bool
  lastModificationDate :: int

record stat =
  exists :: bool
  isDirectory :: bool
  isFile :: bool
  lastModified :: int

text \<open>
  \<open>OS.File.stat\<close> is taken as a parameter: what the call does for a path (throw at
  once, reject, or resolve with the file's information; \<open>lastModificationDate\<close> is
  given by its \<open>getTime()\<close>). The result lists the calls of the callback, each with its
  two arguments.
\<close>

definition statFile :: "(path \<Rightarrow> info outcome) \<Rightarrow> path \<Rightarrow> (error option \<times> stat option) list" where
  "statFile os_stat file =
     (case os_stat file of
        Throws e \<Rightarrow> [(Some e, None)]
      | Resolves i \<Rightarrow>
          [(None, Some \<lparr>exists = True, isDirectory = isDir i, isFile = \<not> isDir i,
                        lastModified = lastModificationDate i\<rparr>)]
      | Rejects e \<Rightarrow>
          if becauseNoSuchFile e
          then [(None, Some \<lparr>exists = False, isDirectory = False, isFile = False,
                             lastModified = 0\<rparr>)]
          else [(Some e, None)])"

subsection \<open>Reading a trace\<close>

text \<open>The arguments of the calls of \<open>listener.process\<close> in a trace, in their order.\<close>

fun delivered :: "event list \<Rightarrow> string option list" where
  "delivered [] = []"
| "delivered (Process l # evs) = l # delivered evs"
| "delivered (ev # evs) = delivered evs"

text \<open>
  The listener takes the lines \<open>ls\<close> one after the other without throwing, from the
  state \<open>s\<close> on; the result is the state it ends in.
\<close>

fun accepts :: "'s listener \<Rightarrow> 's \<Rightarrow> string list \<Rightarrow> 's option" where
  "accepts process s [] = Some s"
| "accepts process s (line # rest) =
     (case process s (Some line) of
        (Some ex, s') \<Rightarrow> None
      | (None, s') \<Rightarrow> accepts process s' rest)"

text \<open>The events of a span hook: none without a truthy identifier.\<close>

definition hooks :: "(string \<Rightarrow> event) \<Rightarrow> string option \<Rightarrow> event list" where
  "hooks hook timeLineID =
     (case timeLineID of
        None \<Rightarrow> []
      | Some i \<Rightarrow> if i = [] then [] else [hook i])"

definition calls_of :: "string list \<Rightarrow> event list" where
  "calls_of ls = map (\<lambda>l. Process (Some l)) ls"

definition after :: "world \<Rightarrow> event list \<Rightarrow> world" where
  "after w evs = w\<lparr>trace := trace w @ evs\<rparr>"

text \<open>
  Sample inputs: a world with the given files whose backend never fails, and a
  listener that records what it is given.
\<close>

definition fresh :: "(path \<rightharpoonup> string) \<Rightarrow> world" where
  "fresh fs = \<lparr>files = fs, fault_at = (\<lambda>n. None), calls = 0, trace = []\<rparr>"

definition recorder :: "string option list listener" where
  "recorder s l = (None, s @ [l])"

definition choking :: "string \<Rightarrow> error \<Rightarrow> string option list listener" where
  "choking bad ex s l = (if l = Some bad then (Some ex, s) else (None, s @ [l]))"

subsection \<open>Reading a run of the writer\<close>

text \<open>The events that are calls of a file primitive.\<close>

fun is_prim :: "event \<Rightarrow> bool" where
  "is_prim (FileRead p) = True"
| "is_prim (FileOpen p) = True"
| "is_prim (FileWrite p bytes) = True"
| "is_prim (FileFlush p) = True"
| "is_prim (FileClose p) = True"
| "is_prim (FileMove p q) = True"
| "is_prim ev = False"

text \<open>The backend fails none of the calls number \<open>m\<close> to \<open>n - 1\<close>.\<close>

definition quiet :: "world \<Rightarrow> nat \<Rightarrow> nat \<Rightarrow> bool" where
  "quiet w m n \<longleftrightarrow> (\<forall>k. m \<le> k \<and> k < n \<longrightarrow> fault_at w k = None)"

text \<open>
  The world \<open>w'\<close> comes from \<open>w\<close> by calls of primitives, each with its one event, that
  touch no path but \<open>f\<close>.
\<close>

definition advances :: "path \<Rightarrow> world \<Rightarrow> world \<Rightarrow> bool" where
  "advances f w w' \<longleftrightarrow>
     fault_at w' = fault_at w \<and> calls w \<le> calls w' \<and>
     (\<exists>evs. trace w' = trace w @ evs \<and> length evs = calls w' - calls w \<and> list_all is_prim evs) \<and>
     (\<forall>p. p \<noteq> f \<longrightarrow> files w' p = files w p)"

text \<open>All the calls succeeded; the last of the calls failed with \<open>ex\<close>, the ones before succeeded.\<close>

definition succeeded :: "path \<Rightarrow> world \<Rightarrow> world \<Rightarrow> bool" where
  "succeeded f w w' \<longleftrightarrow> advances f w w' \<and> quiet w (calls w) (calls w')"

definition broke :: "path \<Rightarrow> error \<Rightarrow> world \<Rightarrow> world \<Rightarrow> bool" where
  "broke f ex w w' \<longleftrightarrow>
     advances f w w' \<and> calls w < calls w' \<and> quiet w (calls w) (calls w' - 1) \<and>
     (\<exists>ft. fault_at w (calls w' - 1) = Some ft \<and> err ft = ex)"

text \<open>
  The outcome \<open>r\<close> of a stretch of the task that works on the file \<open>f\<close>, and a task that
  ran to its end.
\<close>

definition ran_on :: "path \<Rightarrow> error + 'a \<Rightarrow> world \<Rightarrow> world \<Rightarrow> bool" where
  "ran_on f r w w' =
     (case r of
        Inl ex \<Rightarrow> broke f ex w w'
      | Inr x \<Rightarrow> succeeded f w w' \<and> files w' f \<noteq> None)"

definition completed :: "world \<Rightarrow> world \<Rightarrow> bool" where
  "completed w w' \<longleftrightarrow>
     fault_at w' = fault_at w \<and> calls w < calls w' \<and> quiet w (calls w) (calls w') \<and>
     (\<exists>evs. trace w' = trace w @ evs \<and> length evs = calls w' - calls w \<and> list_all is_prim evs)"

text \<open>The backend fails no call from now on.\<close>

definition calm :: "world \<Rightarrow> bool" where
  "calm w \<longleftrightarrow> (\<forall>k. calls w \<le> k \<longrightarrow> fault_at w k = None)"

text \<open>The world after the primitive calls \<open>evs\<close>, which leave the files \<open>fs\<close>.\<close>

definition did :: "world \<Rightarrow> event list \<Rightarrow> (path \<rightharpoonup> string) \<Rightarrow> world" where
  "did w evs fs = w\<lparr>files := fs, calls := calls w + length evs, trace := trace w @ evs\<rparr>"

text \<open>
  What the loop of \<open>writeToFile\<close> does to its buffer when every write succeeds: the
  chunks it hands to \<open>write\<close>, in their order, and the buffer it ends with; and the
  chunks of a whole run, with the one of the final flush.
\<close>

fun chunk_loop :: "string \<Rightarrow> string list \<Rightarrow> buffer \<Rightarrow> string list \<times> buffer" where
  "chunk_loop lb [] b = ([], b)"
| "chunk_loop lb (line # rest) b =
     (let b1 = push line b
      in if bufLen b1 \<ge> BUFFER_SIZE
         then (case chunk_loop lb rest (b1\<lparr>buf := [], bufLen := 0\<rparr>) of
                 (cs, b') \<Rightarrow> ((join lb (buf b1) @ lb) # cs, b'))
         else chunk_loop lb rest b1)"

definition chunks :: "string \<Rightarrow> string list \<Rightarrow> string list" where
  "chunks lb data =
     (case chunk_loop lb data \<lparr>buf = [], bufLen = 0\<rparr> of
        (cs, b) \<Rightarrow> if bufLen b \<noteq> 0 then cs @ [join lb (buf b) @ lb] else cs)"

text \<open>
  The text of one chunk, and a group of lines that one flush of the loop writes: with
  its last line the character count has reached the threshold, without it not yet.
\<close>

definition chunk_of :: "string \<Rightarrow> string list \<Rightarrow> string" where
  "chunk_of lb g = join lb g @ lb"

definition full_group :: "string list \<Rightarrow> bool" where
  "full_group g \<longleftrightarrow>
     g \<noteq> [] \<and> BUFFER_SIZE \<le> length (concat g) \<and> length (concat (butlast g)) < BUFFER_SIZE"

text \<open>The text of the lines, each with the line break behind it.\<close>

definition terminated :: "string \<Rightarrow> string list \<Rightarrow> string" where
  "terminated lb ls = concat (map (\<lambda>l. l @ lb) ls)"

text \<open>The number of chunk writes in a trace.\<close>

definition flushes :: "event list \<Rightarrow> nat" where
  "flushes evs = length (filter (\<lambda>ev. case ev of FileWrite p bytes \<Rightarrow> True | _ \<Rightarrow> False) evs)"

text \<open>Sample inputs: a platform, and a backend that fails the call number \<open>n\<close>.\<close>

definition linux :: env where
  "linux = \<lparr>appinfo_OS = ''Linux'', textEncoder = None, flush_exposed = True\<rparr>"

definition failing :: "nat \<Rightarrow> fault \<Rightarrow> (path \<rightharpoonup> string) \<Rightarrow> world" where
  "failing n ft fs =
     \<lparr>files = fs, fault_at = (\<lambda>k. if k = n then Some ft else None), calls = 0, trace = []\<rparr>"

section \<open>The line scanner\<close>

declare lines.simps [simp del]

lemma lines_Nil: "lines [] = []"
  by (simp add: lines.simps regexp_exec_def)

lemma lines_break: "isBreak c \<Longrightarrow> lines (c # cs) = lines cs"
  by (simp add: lines.simps [of "c # cs"] lines.simps [of cs] regexp_exec_def)

lemma lines_nonbreak:
  "\<not> isBreak c \<Longrightarrow>
   lines (c # cs) = (c # takeWhile (\<lambda>c. \<not> isBreak c) cs) # lines (dropWhile (\<lambda>c. \<not> isBreak c) cs)"
  by (simp add: lines.simps [of "c # cs"] regexp_exec_def)

lemma break_fields_hd: "hd (break_fields cs) = takeWhile (\<lambda>c. \<not> isBreak c) cs"
  by (induction cs) auto

lemma break_fields_tl:
  "filter (\<lambda>t. t \<noteq> []) (tl (break_fields cs)) = spec_lines (dropWhile (\<lambda>c. \<not> isBreak c) cs)"
  by (induction cs) (auto simp: spec_lines_def)

lemma spec_lines_break: "isBreak c \<Longrightarrow> spec_lines (c # cs) = spec_lines cs"
  by (simp add: spec_lines_def)

lemma spec_lines_nonbreak:
  "\<not> isBreak c \<Longrightarrow>
   spec_lines (c # cs) = (c # takeWhile (\<lambda>c. \<not> isBreak c) cs) # spec_lines (dropWhile (\<lambda>c. \<not> isBreak c) cs)"
  using break_fields_tl [of cs] by (simp add: spec_lines_def break_fields_hd)

lemma lines_spec_lines: "lines s = spec_lines s"
proof (induction s rule: length_induct)
  case (1 s)
  show ?case
  proof (cases s)
    case Nil
    then show ?thesis by (simp add: lines_Nil spec_lines_def)
  next
    case (Cons c cs)
    show ?thesis
    proof (cases "isBreak c")
      case True
      with Cons "1" show ?thesis by (simp add: lines_break spec_lines_break)
    next
      case False
      have "length (dropWhile (\<lambda>c. \<not> isBreak c) cs) < length s"
        using Cons by (simp add: le_imp_less_Suc length_dropWhile_le)
      with "1" have "lines (dropWhile (\<lambda>c. \<not> isBreak c) cs) = spec_lines (dropWhile (\<lambda>c. \<not> isBreak c) cs)"
        by blast
      with False Cons show ?thesis by (simp add: lines_nonbreak spec_lines_nonbreak)
    qed
  qed
qed

lemma break_fields_free: "t \<in> set (break_fields cs) \<Longrightarrow> c \<in> set t \<Longrightarrow> \<not> isBreak c"
proof (induction cs arbitrary: t)
  case Nil
  then show ?case by simp
next
  case (Cons d ds)
  have ne: "break_fields ds \<noteq> []" by (cases ds) auto
  show ?case
  proof (cases "isBreak d")
    case True
    with Cons show ?thesis by auto
  next
    case False
    from Cons.prems False have "t = d # hd (break_fields ds) \<or> t \<in> set (tl (break_fields ds))"
      by simp
    then show ?thesis
    proof
      assume "t = d # hd (break_fields ds)"
      with Cons.prems False Cons.IH [of "hd (break_fields ds)"] ne show ?thesis by auto
    next
      assume "t \<in> set (tl (break_fields ds))"
      then have "t \<in> set (break_fields ds)" by (rule list.set_sel(2) [OF ne])
      with Cons show ?thesis by blast
    qed
  qed
qed

lemma filter_take_drop: "filter P xs = takeWhile P xs @ filter P (dropWhile P xs)"
  by (induction xs) auto

lemma concat_lines: "concat (lines s) = filter (\<lambda>c. \<not> isBreak c) s"
proof (induction s rule: length_induct)
  case (1 s)
  show ?case
  proof (cases s)
    case Nil
    then show ?thesis by (simp add: lines_Nil)
  next
    case (Cons c cs)
    show ?thesis
    proof (cases "isBreak c")
      case True
      with Cons "1" show ?thesis by (simp add: lines_break)
    next
      case False
      let ?nb = "\<lambda>c. \<not> isBreak c"
      have "length (dropWhile ?nb cs) < length s"
        using Cons by (simp add: le_imp_less_Suc length_dropWhile_le)
      with "1" have ih: "concat (lines (dropWhile ?nb cs)) = filter ?nb (dropWhile ?nb cs)"
        by blast
      have "filter ?nb cs = takeWhile ?nb cs @ filter ?nb (dropWhile ?nb cs)"
        by (rule filter_take_drop)
      with False Cons ih show ?thesis by (simp add: lines_nonbreak)
    qed
  qed
qed

text \<open>
  C4: every token that \<open>lines\<close> produces is a non-empty string without carriage
  return and without line feed; the tokens are, in the order of the text, its maximal
  runs of characters that are no line breaks (the non-empty pieces between the breaks,
  so blank lines leave nothing, and the tokens together are the text without its
  breaks); the empty text has no token.
\<close>

theorem lines_tokens:
  "(\<forall>t \<in> set (lines text). t \<noteq> [] \<and> CR \<notin> set t \<and> LF \<notin> set t)
   \<and> lines text = spec_lines text
   \<and> concat (lines text) = filter (\<lambda>c. \<not> isBreak c) text
   \<and> lines [] = []"
proof -
  have "t \<noteq> [] \<and> CR \<notin> set t \<and> LF \<notin> set t" if "t \<in> set (lines text)" for t
  proof -
    from that have t: "t \<noteq> []" "t \<in> set (break_fields text)"
      by (simp_all add: lines_spec_lines spec_lines_def)
    from break_fields_free [OF t(2)] have "\<not> isBreak CR \<or> CR \<notin> set t" "\<not> isBreak LF \<or> LF \<notin> set t"
      by blast+
    with t(1) show ?thesis by (simp add: isBreak_def)
  qed
  then show ?thesis
    by (simp add: lines_spec_lines [symmetric] concat_lines lines_Nil)
qed

theorem lines_tokens_witness:
  "lines [CHR ''x'', LF, CR, LF, LF, CHR ''y'', LF] = [''x'', ''y'']
   \<and> spec_lines [CHR ''x'', LF, CR, LF, LF, CHR ''y'', LF] = [''x'', ''y'']
   \<and> ''y'' \<in> set (lines [CHR ''x'', LF, CR, LF, LF, CHR ''y'', LF])
   \<and> ''y'' \<noteq> [] \<and> CR \<notin> set ''y'' \<and> LF \<notin> set ''y''"
proof -
  let ?text = "[CHR ''x'', LF, CR, LF, LF, CHR ''y'', LF]"
  have e: "lines ?text = [''x'', ''y'']"
    by (simp add: lines_break lines_nonbreak lines_Nil isBreak_def)
  note t = lines_tokens [of ?text]
  from t have a: "\<forall>t \<in> set (lines ?text). t \<noteq> [] \<and> CR \<notin> set t \<and> LF \<notin> set t"
    by (rule conjunct1)
  from t have b: "lines ?text = spec_lines ?text"
    by (rule conjunct1 [OF conjunct2])
  from b e have c: "spec_lines ?text = [''x'', ''y'']"
    by simp
  have d: "''y'' \<in> set (lines ?text)"
    by (simp only: e) simp
  from a d have "''y'' \<noteq> [] \<and> CR \<notin> set ''y'' \<and> LF \<notin> set ''y''"
    by (rule bspec)
  with e c d show ?thesis
    by (intro conjI) simp_all
qed

section \<open>Reading a file line by line\<close>

lemma after_simps [simp]:
  "trace (after w evs) = trace w @ evs"
  "files (after w evs) = files w"
  "calls (after w evs) = calls w"
  "fault_at (after w evs) = fault_at w"
  "after (after w evs) evs' = after w (evs @ evs')"
  "emit e (after w evs) = after w (evs @ [e])"
  by (simp_all add: after_def emit_def)

lemma after_Nil [simp]: "after w [] = w"
  by (simp add: after_def)

lemma emit_after: "emit e w = after w [e]"
  by (simp add: after_def emit_def)

lemma timeLine_after: "timeLine hook tid w = after w (hooks hook tid)"
  by (simp add: timeLine_def hooks_def emit_after split: option.splits)

lemma delivered_append: "delivered (xs @ ys) = delivered xs @ delivered ys"
  by (induction xs rule: delivered.induct) simp_all

lemma delivered_calls_of: "delivered (calls_of ls) = map Some ls"
  by (induction ls) (simp_all add: calls_of_def)

lemma delivered_hooks:
  "delivered (hooks AsyncStart tid) = []" "delivered (hooks AsyncEnd tid) = []"
  "delivered (hooks AsyncDone tid) = []"
  by (simp_all add: hooks_def split: option.splits)

lemma deliver_accepts:
  "accepts process s ls = Some s1 \<Longrightarrow> deliver process ls s w = (None, s1, after w (calls_of ls))"
proof (induction ls arbitrary: s w)
  case Nil
  then show ?case by (simp add: calls_of_def)
next
  case (Cons l ls)
  from Cons.prems obtain s' where p: "process s (Some l) = (None, s')" and a: "accepts process s' ls = Some s1"
    by (auto split: prod.splits option.splits)
  from Cons.IH [OF a] p show ?case
    by (simp add: emit_after calls_of_def)
qed

lemma deliver_throws:
  "accepts process s pre = Some s1 \<Longrightarrow> process s1 (Some l) = (Some ex, s2) \<Longrightarrow>
   deliver process (pre @ l # post) s w = (Some ex, s2, after w (calls_of (pre @ [l])))"
proof (induction pre arbitrary: s w)
  case Nil
  then show ?case by (simp add: calls_of_def emit_after)
next
  case (Cons p pre)
  from Cons.prems(1) obtain s' where p: "process s (Some p) = (None, s')" and a: "accepts process s' pre = Some s1"
    by (auto split: prod.splits option.splits)
  from Cons.IH [OF a Cons.prems(2)] p show ?case
    by (simp add: emit_after calls_of_def)
qed


lemma os_read_cases:
  "os_read file w =
     ((case fault_at w (calls w) of
         Some ft \<Rightarrow> Inl (err ft)
       | None \<Rightarrow> (case files w file of None \<Rightarrow> Inl (Error True ''no such file'') | Some bytes \<Rightarrow> Inr bytes)),
      (after w [FileRead file])\<lparr>calls := Suc (calls w)\<rparr>)"
  by (simp add: os_read_def prim_call_def decode_def after_def split: option.splits)

lemma after_calls [simp]:
  "after (w\<lparr>calls := n\<rparr>) evs = (after w evs)\<lparr>calls := n\<rparr>"
  "trace (w\<lparr>calls := n\<rparr>) = trace w"
  by (simp_all add: after_def)

lemma fst_os_read:
  "fst (os_read file w) =
     (case fault_at w (calls w) of
        Some ft \<Rightarrow> Inl (err ft)
      | None \<Rightarrow> (case files w file of None \<Rightarrow> Inl (Error True ''no such file'') | Some bytes \<Rightarrow> Inr bytes))"
  by (simp add: os_read_cases)

lemma os_read_after:
  "os_read file (after w evs) =
     (fst (os_read file w), (after w (evs @ [FileRead file]))\<lparr>calls := Suc (calls w)\<rparr>)"
  by (simp add: os_read_cases split: option.splits)


lemma readFromFile_accepted:
  assumes "fst (os_read file w) = Inr content" and "accepts process s (lines content) = Some s1"
    and "process s1 None = (r, s2)"
  shows "readFromFile file process s tid w =
           (s2, (after w (hooks AsyncStart tid @ [FileRead file] @ hooks AsyncEnd tid
                          @ calls_of (lines content) @ [Process None] @ hooks AsyncDone tid
                          @ [Callback r]))\<lparr>calls := Suc (calls w)\<rparr>)"
  using assms
  by (cases r) (simp_all add: readFromFile_def timeLine_after os_read_after finish_def deliver_accepts)

lemma readFromFile_thrown:
  assumes "fst (os_read file w) = Inr content" and "lines content = pre @ line # post"
    and "accepts process s pre = Some s1" and "process s1 (Some line) = (Some ex, s2)"
  shows "readFromFile file process s tid w =
           (s2, (after w (hooks AsyncStart tid @ [FileRead file] @ hooks AsyncEnd tid
                          @ calls_of (pre @ [line]) @ hooks AsyncDone tid
                          @ [Callback (Some ex)]))\<lparr>calls := Suc (calls w)\<rparr>)"
  using assms
  by (simp add: readFromFile_def timeLine_after os_read_after finish_def deliver_throws)


text \<open>
  C5: when the read succeeds (and the listener takes every line), \<open>readFromFile\<close> hands
  every scanned line to \<open>process\<close> in the order of the text and then \<open>null\<close>, once and
  last; on the content \<open>x\n\ny\n\<close> the listener is given exactly \<open>x\<close>, \<open>y\<close>, \<open>null\<close>.
\<close>

theorem readFromFile_delivers:
  assumes "fst (os_read file w) = Inr content"
    and "accepts process s (lines content) = Some s1"
  shows "delivered (trace (snd (readFromFile file process s tid w)))
           = delivered (trace w) @ map Some (lines content) @ [None]
         \<and> (content = [CHR ''x'', LF, LF, CHR ''y'', LF] \<longrightarrow>
              delivered (trace (snd (readFromFile file process s tid w)))
                = delivered (trace w) @ [Some ''x'', Some ''y'', None])"
proof -
  obtain r s2 where p: "process s1 None = (r, s2)"
    by (cases "process s1 None")
  from readFromFile_accepted [OF assms p, of tid]
  have g: "delivered (trace (snd (readFromFile file process s tid w)))
           = delivered (trace w) @ map Some (lines content) @ [None]"
    by (simp add: delivered_append delivered_calls_of delivered_hooks)
  have "lines [CHR ''x'', LF, LF, CHR ''y'', LF] = [''x'', ''y'']"
    by (simp add: lines_break lines_nonbreak lines_Nil isBreak_def)
  with g show ?thesis
    by auto
qed

theorem readFromFile_delivers_witness:
  "delivered (trace (snd (readFromFile ''f'' recorder [] None
      (fresh [''f'' \<mapsto> [CHR ''x'', LF, LF, CHR ''y'', LF]]))))
     = [Some ''x'', Some ''y'', None]
   \<and> fst (readFromFile ''f'' recorder [] None (fresh [''f'' \<mapsto> [CHR ''x'', LF, LF, CHR ''y'', LF]]))
     = [Some ''x'', Some ''y'', None]"
proof -
  let ?content = "[CHR ''x'', LF, LF, CHR ''y'', LF]"
  let ?w = "fresh [''f'' \<mapsto> ?content]"
  have l: "lines ?content = [''x'', ''y'']"
    by (simp add: lines_break lines_nonbreak lines_Nil isBreak_def)
  have r: "fst (os_read ''f'' ?w) = Inr ?content"
    by (simp add: fst_os_read fresh_def)
  have a: "accepts recorder [] (lines ?content) = Some [Some ''x'', Some ''y'']"
    by (simp add: l recorder_def)
  have p: "recorder [Some ''x'', Some ''y''] None = (None, [Some ''x'', Some ''y'', None])"
    by (simp add: recorder_def)
  have "fst (readFromFile ''f'' recorder [] None ?w) = [Some ''x'', Some ''y'', None]"
    by (simp add: readFromFile_accepted [OF r a p])
  moreover have "trace ?w = []"
    by (simp add: fresh_def)
  ultimately show ?thesis
    using readFromFile_delivers [OF r a, of None] by (simp add: l)
qed




text \<open>
  C10: when \<open>process\<close> throws while it handles a line, the exception is caught: the
  lines behind it are not delivered, \<open>null\<close> is not delivered, the done hook (if any)
  fires, and the callback is called once, last, with the exception.
\<close>

theorem readFromFile_listener_throws:
  assumes "fst (os_read file w) = Inr content" and "lines content = pre @ line # post"
    and "accepts process s pre = Some s1" and "process s1 (Some line) = (Some ex, s2)"
  shows "trace (snd (readFromFile file process s tid w)) =
           trace w @ hooks AsyncStart tid @ [FileRead file] @ hooks AsyncEnd tid
           @ calls_of (pre @ [line]) @ hooks AsyncDone tid @ [Callback (Some ex)]
         \<and> delivered (trace (snd (readFromFile file process s tid w))) =
           delivered (trace w) @ map Some pre @ [Some line]"
  using readFromFile_thrown [OF assms, of tid]
  by (simp add: delivered_append delivered_calls_of delivered_hooks)


theorem readFromFile_listener_throws_witness:
  "trace (snd (readFromFile ''f'' (choking ''y'' (Error False ''boom'')) [] (Some ''span'')
       (fresh [''f'' \<mapsto> [CHR ''x'', LF, CHR ''y'', LF, CHR ''z'', LF]])))
     = [AsyncStart ''span'', FileRead ''f'', AsyncEnd ''span'', Process (Some ''x''),
        Process (Some ''y''), AsyncDone ''span'', Callback (Some (Error False ''boom''))]"
proof -
  let ?content = "[CHR ''x'', LF, CHR ''y'', LF, CHR ''z'', LF]"
  let ?w = "fresh [''f'' \<mapsto> ?content]"
  let ?p = "choking ''y'' (Error False ''boom'')"
  have r: "fst (os_read ''f'' ?w) = Inr ?content"
    by (simp add: fst_os_read fresh_def)
  have l: "lines ?content = [''x''] @ ''y'' # [''z'']"
    by (simp add: lines_break lines_nonbreak lines_Nil isBreak_def)
  have a: "accepts ?p [] [''x''] = Some [Some ''x'']"
    by (simp add: choking_def)
  have p: "?p [Some ''x''] (Some ''y'') = (Some (Error False ''boom''), [Some ''x''])"
    by (simp add: choking_def)
  from readFromFile_listener_throws [OF r l a p, of "Some ''span''"] show ?thesis
    by (simp add: hooks_def calls_of_def fresh_def)
qed

section \<open>File information\<close>

text \<open>
  C8: when \<open>OS.File.stat\<close> rejects with the flag \<open>becauseNoSuchFile\<close>, \<open>statFile\<close> calls
  back once with no error and the Stat whose four fields are false, false, false and
  0, and a second call on the same path gives the same again; any other failure of
  the primitive is passed to the callback as its error. A Stat that says \<open>exists\<close>
  false has the other fields false and 0.
\<close>

theorem statFile_translation:
  "(os_stat file = Rejects e \<and> becauseNoSuchFile e \<longrightarrow>
      statFile os_stat file =
        [(None, Some \<lparr>exists = False, isDirectory = False, isFile = False, lastModified = 0\<rparr>)]
      \<and> statFile os_stat file @ statFile os_stat file =
        [(None, Some \<lparr>exists = False, isDirectory = False, isFile = False, lastModified = 0\<rparr>),
         (None, Some \<lparr>exists = False, isDirectory = False, isFile = False, lastModified = 0\<rparr>)])
   \<and> (os_stat file = Rejects e \<and> \<not> becauseNoSuchFile e \<longrightarrow> statFile os_stat file = [(Some e, None)])
   \<and> (os_stat file = Throws e \<longrightarrow> statFile os_stat file = [(Some e, None)])
   \<and> (\<forall>r st. (r, Some st) \<in> set (statFile os_stat file) \<and> \<not> exists st \<longrightarrow>
        \<not> isDirectory st \<and> \<not> isFile st \<and> lastModified st = 0)"
  by (cases "os_stat file") (auto simp: statFile_def)


theorem statFile_translation_witness:
  "statFile (\<lambda>p. Rejects (Error True ''gone'')) ''f''
     = [(None, Some \<lparr>exists = False, isDirectory = False, isFile = False, lastModified = 0\<rparr>)]
   \<and> statFile (\<lambda>p. Rejects (Error False ''denied'')) ''f'' = [(Some (Error False ''denied''), None)]
   \<and> statFile (\<lambda>p. Throws (Error False ''bad path'')) ''f'' = [(Some (Error False ''bad path''), None)]"
proof -
  have "statFile (\<lambda>p. Rejects (Error True ''gone'')) ''f''
     = [(None, Some \<lparr>exists = False, isDirectory = False, isFile = False, lastModified = 0\<rparr>)]"
    using statFile_translation [of "\<lambda>p. Rejects (Error True ''gone'')" "''f''" "Error True ''gone''"]
    by simp
  moreover have "statFile (\<lambda>p. Rejects (Error False ''denied'')) ''f'' = [(Some (Error False ''denied''), None)]"
    using statFile_translation [of "\<lambda>p. Rejects (Error False ''denied'')" "''f''" "Error False ''denied''"]
    by simp
  moreover have "statFile (\<lambda>p. Throws (Error False ''bad path'')) ''f'' = [(Some (Error False ''bad path''), None)]"
    using statFile_translation [of "\<lambda>p. Throws (Error False ''bad path'')" "''f''" "Error False ''bad path''"]
    by simp
  ultimately show ?thesis
    by (intro conjI)
qed

section \<open>Writing a file in chunks\<close>

subsection \<open>Runs of the task under a failing backend\<close>

lemma advances_refl: "advances f w w"
  by (simp add: advances_def)

lemma advances_trans:
  assumes "advances f w w1" and "advances f w1 w2"
  shows "advances f w w2"
proof -
  from assms(1) obtain evs where e1: "trace w1 = trace w @ evs" "length evs = calls w1 - calls w"
    "list_all is_prim evs" and c1: "calls w \<le> calls w1" "fault_at w1 = fault_at w"
    and f1: "\<forall>p. p \<noteq> f \<longrightarrow> files w1 p = files w p"
    by (auto simp: advances_def)
  from assms(2) obtain evs' where e2: "trace w2 = trace w1 @ evs'" "length evs' = calls w2 - calls w1"
    "list_all is_prim evs'" and c2: "calls w1 \<le> calls w2" "fault_at w2 = fault_at w1"
    and f2: "\<forall>p. p \<noteq> f \<longrightarrow> files w2 p = files w1 p"
    by (auto simp: advances_def)
  have "trace w2 = trace w @ (evs @ evs')" "length (evs @ evs') = calls w2 - calls w"
    "list_all is_prim (evs @ evs')"
    using e1 e2 c1 c2 by simp_all
  then have "\<exists>es. trace w2 = trace w @ es \<and> length es = calls w2 - calls w \<and> list_all is_prim es"
    by blast
  with c1 c2 f1 f2 show ?thesis
    by (simp add: advances_def)
qed

lemma succeeded_refl: "succeeded f w w"
  by (auto simp: succeeded_def advances_refl quiet_def)

lemma quiet_join:
  "quiet w a b \<Longrightarrow> quiet w b c \<Longrightarrow> quiet w a c"
  by (auto simp: quiet_def) (metis not_le_imp_less)

lemma succeeded_trans:
  assumes "succeeded f w w1" and "succeeded f w1 w2"
  shows "succeeded f w w2"
proof -
  from assms have a: "advances f w w2"
    by (auto simp: succeeded_def intro: advances_trans)
  from assms have "fault_at w1 = fault_at w"
    by (simp add: succeeded_def advances_def)
  then have "quiet w1 = quiet w"
    by (simp add: quiet_def fun_eq_iff)
  with assms have "quiet w (calls w) (calls w2)"
    by (auto simp: succeeded_def intro: quiet_join)
  with a show ?thesis
    by (simp add: succeeded_def)
qed

lemma succeeded_broke:
  assumes "succeeded f w w1" and "broke f ex w1 w2"
  shows "broke f ex w w2"
proof -
  from assms have a: "advances f w w2"
    by (auto simp: succeeded_def broke_def intro: advances_trans)
  from assms have eq: "fault_at w1 = fault_at w" and le: "calls w \<le> calls w1"
    by (simp_all add: succeeded_def advances_def)
  from eq have q: "quiet w1 = quiet w"
    by (simp add: quiet_def fun_eq_iff)
  from assms q have "quiet w (calls w) (calls w2 - 1)"
    by (auto simp: succeeded_def broke_def intro: quiet_join)
  with a assms eq le show ?thesis
    by (auto simp: broke_def)
qed

lemma prim_call_advances:
  assumes "prim_call ev w = (r, w1)" and "is_prim ev"
    and "fault_at w' = fault_at w1" and "calls w' = calls w1" and "trace w' = trace w1"
    and "\<forall>p. p \<noteq> f \<longrightarrow> files w' p = files w p"
  shows "advances f w w'" and "calls w' = Suc (calls w)" and "r = fault_at w (calls w)"
  using assms by (auto simp: prim_call_def advances_def)

lemma one_call_succeeded:
  "advances f w w' \<Longrightarrow> calls w' = Suc (calls w) \<Longrightarrow> fault_at w (calls w) = None \<Longrightarrow> succeeded f w w'"
  by (auto simp: succeeded_def quiet_def le_less_Suc_eq)

lemma one_call_broke:
  "advances f w w' \<Longrightarrow> calls w' = Suc (calls w) \<Longrightarrow> fault_at w (calls w) = Some ft \<Longrightarrow>
   broke f (err ft) w w'"
  by (auto simp: broke_def quiet_def)

lemma os_open_run:
  "os_open p w = (Inr h, w') \<Longrightarrow> h = p \<and> succeeded p w w' \<and> files w' p = Some []"
  "os_open p w = (Inl ex, w') \<Longrightarrow> broke p ex w w'"
proof -
  obtain r w1 where c: "prim_call (FileOpen p) w = (r, w1)"
    by (cases "prim_call (FileOpen p) w")
  {
    assume a: "os_open p w = (Inr h, w')"
    with c have w': "r = None" "w' = w1\<lparr>files := (files w1)(p \<mapsto> [])\<rparr>" "h = p"
      by (auto simp: os_open_def split: option.splits)
    from c have "files w1 = files w"
      by (auto simp: prim_call_def)
    with w' prim_call_advances [OF c, of w' p]
    show "h = p \<and> succeeded p w w' \<and> files w' p = Some []"
      by (auto intro: one_call_succeeded)
  }
  {
    assume a: "os_open p w = (Inl ex, w')"
    with c obtain ft where w': "r = Some ft" "w' = leave p ft w1" "ex = err ft"
      by (auto simp: os_open_def split: option.splits)
    from c have "files w1 = files w"
      by (auto simp: prim_call_def)
    with w' prim_call_advances [OF c, of w' p]
    show "broke p ex w w'"
      by (auto simp: leave_def intro: one_call_broke)
  }
qed


lemma file_write_run:
  assumes "files w f \<noteq> None"
  shows "file_write f a w = (Inr u, w') \<Longrightarrow>
           succeeded f w w' \<and> files w' f = Some (the (files w f) @ a)
           \<and> trace w' = trace w @ [FileWrite f a]"
    and "file_write f a w = (Inl ex, w') \<Longrightarrow> broke f ex w w'"
proof -
  obtain r w1 where c: "prim_call (FileWrite f a) w = (r, w1)"
    by (cases "prim_call (FileWrite f a) w")
  then have f1: "files w1 = files w" and t1: "trace w1 = trace w @ [FileWrite f a]"
    by (auto simp: prim_call_def)
  from assms obtain old where old: "files w f = Some old"
    by blast
  {
    assume "file_write f a w = (Inr u, w')"
    with c f1 old have w': "r = None" "w' = w1\<lparr>files := (files w1)(f \<mapsto> old @ a)\<rparr>"
      by (auto simp: file_write_def split: option.splits)
    with f1 t1 old prim_call_advances [OF c, of w' f]
    show "succeeded f w w' \<and> files w' f = Some (the (files w f) @ a)
           \<and> trace w' = trace w @ [FileWrite f a]"
      by (auto intro: one_call_succeeded)
  }
  {
    assume "file_write f a w = (Inl ex, w')"
    with c f1 old obtain ft where w': "r = Some ft" "w' = leave f ft w1" "ex = err ft"
      by (auto simp: file_write_def split: option.splits)
    with f1 prim_call_advances [OF c, of w' f]
    show "broke f ex w w'"
      by (auto simp: leave_def intro: one_call_broke)
  }
qed

lemma file_flush_run:
  "file_flush f w = (Inr u, w') \<Longrightarrow> succeeded f w w' \<and> files w' = files w \<and> trace w' = trace w @ [FileFlush f]"
  "file_flush f w = (Inl ex, w') \<Longrightarrow> broke f ex w w'"
proof -
  obtain r w1 where c: "prim_call (FileFlush f) w = (r, w1)"
    by (cases "prim_call (FileFlush f) w")
  then have f1: "files w1 = files w" and t1: "trace w1 = trace w @ [FileFlush f]"
    by (auto simp: prim_call_def)
  {
    assume "file_flush f w = (Inr u, w')"
    with c have w': "r = None" "w' = w1"
      by (auto simp: file_flush_def split: option.splits)
    with f1 t1 prim_call_advances [OF c, of w' f]
    show "succeeded f w w' \<and> files w' = files w \<and> trace w' = trace w @ [FileFlush f]"
      by (auto intro: one_call_succeeded)
  }
  {
    assume "file_flush f w = (Inl ex, w')"
    with c obtain ft where w': "r = Some ft" "w' = leave f ft w1" "ex = err ft"
      by (auto simp: file_flush_def split: option.splits)
    with f1 prim_call_advances [OF c, of w' f]
    show "broke f ex w w'"
      by (auto simp: leave_def intro: one_call_broke)
  }
qed

lemma file_close_run:
  "file_close f w = (Inr u, w') \<Longrightarrow> succeeded f w w' \<and> files w' = files w \<and> trace w' = trace w @ [FileClose f]"
  "file_close f w = (Inl ex, w') \<Longrightarrow> broke f ex w w'"
proof -
  obtain r w1 where c: "prim_call (FileClose f) w = (r, w1)"
    by (cases "prim_call (FileClose f) w")
  then have f1: "files w1 = files w" and t1: "trace w1 = trace w @ [FileClose f]"
    by (auto simp: prim_call_def)
  {
    assume "file_close f w = (Inr u, w')"
    with c have w': "r = None" "w' = w1"
      by (auto simp: file_close_def split: option.splits)
    with f1 t1 prim_call_advances [OF c, of w' f]
    show "succeeded f w w' \<and> files w' = files w \<and> trace w' = trace w @ [FileClose f]"
      by (auto intro: one_call_succeeded)
  }
  {
    assume "file_close f w = (Inl ex, w')"
    with c obtain ft where w': "r = Some ft" "w' = leave f ft w1" "ex = err ft"
      by (auto simp: file_close_def split: option.splits)
    with f1 prim_call_advances [OF c, of w' f]
    show "broke f ex w w'"
      by (auto simp: leave_def intro: one_call_broke)
  }
qed

lemma os_move_run:
  assumes "files w src \<noteq> None"
  shows "os_move src dst w = (Inr u, w') \<Longrightarrow>
           fault_at w' = fault_at w \<and> calls w' = Suc (calls w) \<and> fault_at w (calls w) = None
           \<and> trace w' = trace w @ [FileMove src dst]
           \<and> files w' = (files w)(src := None, dst := files w src)"
    and "os_move src dst w = (Inl ex, w') \<Longrightarrow> broke src ex w w'"
proof -
  obtain r w1 where c: "prim_call (FileMove src dst) w = (r, w1)"
    by (cases "prim_call (FileMove src dst) w")
  then have f1: "files w1 = files w" and t1: "trace w1 = trace w @ [FileMove src dst]"
    by (auto simp: prim_call_def)
  from assms obtain bytes where b: "files w src = Some bytes"
    by blast
  {
    assume "os_move src dst w = (Inr u, w')"
    with c f1 b have w': "r = None" "w' = w1\<lparr>files := (files w1)(src := None, dst \<mapsto> bytes)\<rparr>"
      by (auto simp: os_move_def split: option.splits)
    with c f1 t1 b
    show "fault_at w' = fault_at w \<and> calls w' = Suc (calls w) \<and> fault_at w (calls w) = None
           \<and> trace w' = trace w @ [FileMove src dst]
           \<and> files w' = (files w)(src := None, dst := files w src)"
      by (auto simp: prim_call_def)
  }
  {
    assume "os_move src dst w = (Inl ex, w')"
    with c f1 b obtain ft where w': "r = Some ft" "w' = leave src ft w1" "ex = err ft"
      by (auto simp: os_move_def split: option.splits)
    with f1 prim_call_advances [OF c, of w' src]
    show "broke src ex w w'"
      by (auto simp: leave_def intro: one_call_broke)
  }
qed

lemma writeChunk_run:
  assumes "files w f \<noteq> None"
  shows "writeChunk lb f b w = (Inr u, b', w') \<Longrightarrow>
           succeeded f w w' \<and> files w' f = Some (the (files w f) @ join lb (buf b) @ lb)
           \<and> trace w' = trace w @ [FileWrite f (join lb (buf b) @ lb)]
           \<and> b' = b\<lparr>buf := [], bufLen := 0\<rparr>"
    and "writeChunk lb f b w = (Inl ex, b', w') \<Longrightarrow> broke f ex w w'"
  using file_write_run [OF assms, of "join lb (buf b) @ lb"]
  by (auto simp: writeChunk_def encode_def Let_def split: prod.splits)

lemma write_loop_run:
  assumes "files w f \<noteq> None"
  shows "(write_loop lb f data b w = (Inr u, b', w') \<longrightarrow> succeeded f w w' \<and> files w' f \<noteq> None)
       \<and> (write_loop lb f data b w = (Inl ex, b', w') \<longrightarrow> broke f ex w w')"
  using assms
proof (induction data arbitrary: b w)
  case Nil
  then show ?case
    by (auto simp: succeeded_refl)
next
  case (Cons line rest)
  show ?case
  proof (cases "bufLen (push line b) \<ge> BUFFER_SIZE")
    case False
    with Cons.IH [OF Cons.prems, of "push line b"] show ?thesis
      by (simp add: Let_def)
  next
    case True
    obtain r b2 w2 where c: "writeChunk lb f (push line b) w = (r, b2, w2)"
      by (cases "writeChunk lb f (push line b) w")
    show ?thesis
    proof (cases r)
      case (Inl e2)
      with c True writeChunk_run(2) [OF Cons.prems, of lb "push line b" e2 b2 w2] show ?thesis
        by (auto simp: Let_def)
    next
      case (Inr u2)
      with c writeChunk_run(1) [OF Cons.prems, of lb "push line b" u2 b2 w2]
      have s: "succeeded f w w2" and ne: "files w2 f \<noteq> None"
        by auto
      from Cons.IH [OF ne, of b2] s c Inr True show ?thesis
        by (auto simp: Let_def intro: succeeded_trans succeeded_broke)
    qed
  qed
qed


lemma ran_then: "ran_on f (Inr x) w w1 \<Longrightarrow> ran_on f r w1 w2 \<Longrightarrow> ran_on f r w w2"
  by (cases r) (auto simp: ran_on_def intro: succeeded_trans succeeded_broke)

lemma os_open_ran: "os_open p w = (r, w') \<Longrightarrow> ran_on p r w w'"
  by (cases r) (auto simp: ran_on_def dest: os_open_run)

lemma write_loop_ran:
  "files w f \<noteq> None \<Longrightarrow> write_loop lb f data b w = (r, b', w') \<Longrightarrow> ran_on f r w w'"
  using write_loop_run [of w f lb data b _ b' w'] by (cases r) (auto simp: ran_on_def)

lemma final_flush_ran:
  assumes "files w f \<noteq> None"
    and "(if bufLen b \<noteq> 0 then writeChunk lb f b w else (Inr (), b, w)) = (r, b', w')"
  shows "ran_on f r w w'"
proof (cases "bufLen b \<noteq> 0")
  case True
  with assms(2) have "writeChunk lb f b w = (r, b', w')"
    by simp
  with writeChunk_run [OF assms(1), of lb b _ b' w'] show ?thesis
    by (cases r) (auto simp: ran_on_def)
next
  case False
  with assms show ?thesis
    by (auto simp: ran_on_def succeeded_refl)
qed

lemma flush_ran:
  assumes "files w f \<noteq> None"
    and "(if fe then file_flush f w else (Inr (), w)) = (r, w')"
  shows "ran_on f r w w'"
proof (cases fe)
  case True
  with assms(2) have "file_flush f w = (r, w')"
    by simp
  with file_flush_run [of f w _ w'] assms(1) show ?thesis
    by (cases r) (auto simp: ran_on_def)
next
  case False
  with assms show ?thesis
    by (auto simp: ran_on_def succeeded_refl)
qed

lemma close_ran:
  assumes "files w f \<noteq> None" and "file_close f w = (r, w')"
  shows "ran_on f r w w'"
  using file_close_run [of f w _ w'] assms by (cases r) (auto simp: ran_on_def)

lemma move_completed:
  assumes "succeeded f w w5" and "fault_at w' = fault_at w5" and "calls w' = Suc (calls w5)"
    and "fault_at w5 (calls w5) = None" and "trace w' = trace w5 @ [ev]" and "is_prim ev"
  shows "completed w w'"
proof -
  from assms(1) obtain evs where e: "trace w5 = trace w @ evs" "length evs = calls w5 - calls w"
    "list_all is_prim evs" and c: "calls w \<le> calls w5" "fault_at w5 = fault_at w"
    and q: "quiet w (calls w) (calls w5)"
    by (auto simp: succeeded_def advances_def)
  from e assms(3,5,6) c have "trace w' = trace w @ (evs @ [ev])" "length (evs @ [ev]) = calls w' - calls w"
    "list_all is_prim (evs @ [ev])"
    by simp_all
  then have "\<exists>es. trace w' = trace w @ es \<and> length es = calls w' - calls w \<and> list_all is_prim es"
    by blast
  moreover from q assms(3,4) c have "quiet w (calls w) (calls w')"
    by (auto simp: quiet_def less_Suc_eq)
  ultimately show ?thesis
    using assms(2,3) c by (simp add: completed_def)
qed

lemma write_task_run:
  "(write_task e file data w = (Inl ex, w') \<longrightarrow> broke (file @ ''.tmp'') ex w w')
   \<and> (write_task e file data w = (Inr u, w') \<longrightarrow> completed w w')"
proof -
  let ?tmp = "file @ ''.tmp''"
  let ?lb = "lineBreak e"
  obtain r1 w1 where o1: "os_open ?tmp w = (r1, w1)"
    by (cases "os_open ?tmp w")
  then have R1: "ran_on ?tmp r1 w w1"
    by (rule os_open_ran)
  show ?thesis
  proof (cases r1)
    case (Inl ex1)
    with o1 R1 show ?thesis
      by (auto simp: write_task_def ran_on_def)
  next
    case r1: (Inr f)
    with o1 have f: "f = ?tmp"
      by (auto dest: os_open_run)
    from R1 r1 have n1: "files w1 ?tmp \<noteq> None"
      by (simp add: ran_on_def)
    obtain r2 b2 w2 where o2: "write_loop ?lb ?tmp data \<lparr>buf = [], bufLen = 0\<rparr> w1 = (r2, b2, w2)"
      by (cases "write_loop ?lb ?tmp data \<lparr>buf = [], bufLen = 0\<rparr> w1")
    from R1 r1 write_loop_ran [OF n1 o2] have R2: "ran_on ?tmp r2 w w2"
      by (auto intro: ran_then)
    show ?thesis
    proof (cases r2)
      case (Inl ex2)
      with o1 r1 f o2 R2 show ?thesis
        by (auto simp: write_task_def ran_on_def)
    next
      case r2: (Inr u2)
      from R2 r2 have n2: "files w2 ?tmp \<noteq> None"
        by (simp add: ran_on_def)
      obtain r3 b3 w3 where o3: "(if bufLen b2 \<noteq> 0 then writeChunk ?lb ?tmp b2 w2 else (Inr (), b2, w2)) = (r3, b3, w3)"
        by (cases "if bufLen b2 \<noteq> 0 then writeChunk ?lb ?tmp b2 w2 else (Inr (), b2, w2)")
      from R2 r2 final_flush_ran [OF n2 o3] have R3: "ran_on ?tmp r3 w w3"
        by (auto intro: ran_then)
      show ?thesis
      proof (cases r3)
        case (Inl ex3)
        with o1 r1 f o2 r2 o3 R3 show ?thesis
          by (auto simp: write_task_def ran_on_def)
      next
        case r3: (Inr u3)
        from R3 r3 have n3: "files w3 ?tmp \<noteq> None"
          by (simp add: ran_on_def)
        obtain r4 w4 where o4: "(if flush_exposed e then file_flush ?tmp w3 else (Inr (), w3)) = (r4, w4)"
          by (cases "if flush_exposed e then file_flush ?tmp w3 else (Inr (), w3)")
        from R3 r3 flush_ran [OF n3 o4] have R4: "ran_on ?tmp r4 w w4"
          by (auto intro: ran_then)
        show ?thesis
        proof (cases r4)
          case (Inl ex4)
          with o1 r1 f o2 r2 o3 r3 o4 R4 show ?thesis
            by (auto simp: write_task_def ran_on_def)
        next
          case r4: (Inr u4)
          from R4 r4 have n4: "files w4 ?tmp \<noteq> None"
            by (simp add: ran_on_def)
          obtain r5 w5 where o5: "file_close ?tmp w4 = (r5, w5)"
            by (cases "file_close ?tmp w4")
          from R4 r4 close_ran [OF n4 o5] have R5: "ran_on ?tmp r5 w w5"
            by (auto intro: ran_then)
          show ?thesis
          proof (cases r5)
            case (Inl ex5)
            with o1 r1 f o2 r2 o3 r3 o4 r4 o5 R5 show ?thesis
              by (auto simp: write_task_def ran_on_def)
          next
            case r5: (Inr u5)
            from R5 r5 have n5: "files w5 ?tmp \<noteq> None" and s5: "succeeded ?tmp w w5"
              by (simp_all add: ran_on_def)
            from o1 r1 f o2 r2 o3 r3 o4 r4 o5 r5
            have t: "write_task e file data w = os_move ?tmp file w5"
              by (simp add: write_task_def)
            show ?thesis
            proof (intro conjI impI)
              assume "write_task e file data w = (Inl ex, w')"
              with t have "os_move ?tmp file w5 = (Inl ex, w')"
                by simp
              then have "broke ?tmp ex w5 w'"
                by (rule os_move_run(2) [OF n5])
              with s5 show "broke ?tmp ex w w'"
                by (rule succeeded_broke)
            next
              assume "write_task e file data w = (Inr u, w')"
              with t have "os_move ?tmp file w5 = (Inr u, w')"
                by simp
              from os_move_run(1) [OF n5 this] s5 show "completed w w'"
                by (auto intro: move_completed [where ev = "FileMove ?tmp file"])
            qed
          qed
        qed
      qed
    qed
  qed
qed

subsection \<open>Errors and the target file\<close>

text \<open>
  C2: every run of \<open>writeToFile\<close> ends with one call of the callback, and calls it nowhere
  else. Each step is one primitive call; a failing call is the last call of the run (the
  steps behind it are skipped), so the callback's error is the first error met (or the
  exception of the encoder's construction, with no step made at all). On an error the
  content (or absence) of the target and of every other path but the temporary file
  is as before. The callback gets \<open>null\<close> exactly when no step failed.
\<close>

theorem writeToFile_atomic:
  "\<exists>evs r.
     trace (writeToFile e file data w) = trace w @ evs @ [Callback r]
     \<and> list_all is_prim evs
     \<and> length evs = calls (writeToFile e file data w) - calls w
     \<and> quiet w (calls w) (calls (writeToFile e file data w) - 1)
     \<and> (r = None \<longrightarrow>
          textEncoder e = None \<and> quiet w (calls w) (calls (writeToFile e file data w)))
     \<and> (\<forall>ex. r = Some ex \<longrightarrow>
          (textEncoder e = Some ex \<and> evs = []
           \<or> textEncoder e = None \<and> calls w < calls (writeToFile e file data w)
             \<and> (\<exists>ft. fault_at w (calls (writeToFile e file data w) - 1) = Some ft \<and> err ft = ex))
          \<and> files (writeToFile e file data w) file = files w file
          \<and> (\<forall>p. p \<noteq> file @ ''.tmp'' \<longrightarrow> files (writeToFile e file data w) p = files w p))
     \<and> (textEncoder e = None \<and> (\<forall>k. calls w \<le> k \<longrightarrow> fault_at w k = None) \<longrightarrow> r = None)"
proof (cases "textEncoder e")
  case (Some ex)
  then have w': "writeToFile e file data w = emit (Callback (Some ex)) w"
    by (simp add: writeToFile_def)
  show ?thesis
    unfolding w'
    by (rule exI [of _ "[]"], rule exI [of _ "Some ex"]) (auto simp: emit_def quiet_def Some)
next
  case None
  obtain r0 w1 where t: "write_task e file data w = (r0, w1)"
    by (cases "write_task e file data w")
  show ?thesis
  proof (cases r0)
    case (Inl ex)
    with t None have w': "writeToFile e file data w = emit (Callback (Some ex)) w1"
      by (simp add: writeToFile_def)
    from t Inl have "write_task e file data w = (Inl ex, w1)"
      by simp
    with write_task_run have b: "broke (file @ ''.tmp'') ex w w1"
      by blast
    then obtain evs where evs: "trace w1 = trace w @ evs" "length evs = calls w1 - calls w"
      "list_all is_prim evs" and fr: "\<forall>p. p \<noteq> file @ ''.tmp'' \<longrightarrow> files w1 p = files w p"
      by (auto simp: broke_def advances_def)
    from b obtain ft where q: "quiet w (calls w) (calls w1 - 1)" "calls w < calls w1"
      "fault_at w (calls w1 - 1) = Some ft" "err ft = ex"
      by (auto simp: broke_def)
    from q have nq: "\<not> (\<forall>k. calls w \<le> k \<longrightarrow> fault_at w k = None)"
      by (metis Suc_pred' less_Suc_eq_le less_imp_Suc_add not_Some_eq zero_less_Suc)
    from fr have "files w1 file = files w file"
      by simp
    with evs fr q nq None show ?thesis
      unfolding w'
      by (intro exI [of _ evs] exI [of _ "Some ex"]) (auto simp: emit_def)
  next
    case (Inr u)
    with t None have w': "writeToFile e file data w = emit (Callback None) w1"
      by (simp add: writeToFile_def)
    from t Inr have "write_task e file data w = (Inr u, w1)"
      by simp
    with write_task_run have c: "completed w w1"
      by blast
    then obtain evs where evs: "trace w1 = trace w @ evs" "length evs = calls w1 - calls w"
      "list_all is_prim evs" and q: "quiet w (calls w) (calls w1)"
      by (auto simp: completed_def)
    from q have "quiet w (calls w) (calls w1 - 1)"
      by (auto simp: quiet_def)
    with evs q None show ?thesis
      unfolding w'
      by (intro exI [of _ evs] exI [of _ "None"]) (auto simp: emit_def)
  qed
qed

lemma writeToFile_failing_example:
  "writeToFile linux ''f'' [''a'', ''b'']
      (failing 1 \<lparr>err = Error False ''disk full'', debris = Some ''a''\<rparr> [''f'' \<mapsto> ''old''])
   = \<lparr>files = [''f'' \<mapsto> ''old'', ''f.tmp'' \<mapsto> ''a''],
      fault_at = (\<lambda>k. if k = 1 then Some \<lparr>err = Error False ''disk full'', debris = Some ''a''\<rparr> else None),
      calls = 2,
      trace = [FileOpen ''f.tmp'', FileWrite ''f.tmp'' [CHR ''a'', LF, CHR ''b'', LF],
               Callback (Some (Error False ''disk full''))]\<rparr>"
  by (simp add: writeToFile_def write_task_def linux_def failing_def lineBreak_def os_open_def
      prim_call_def push_def BUFFER_SIZE_def writeChunk_def file_write_def leave_def emit_def
      encode_def Let_def)


theorem writeToFile_atomic_witness:
  "trace (writeToFile linux ''f'' [''a'', ''b'']
      (failing 1 \<lparr>err = Error False ''disk full'', debris = Some ''a''\<rparr> [''f'' \<mapsto> ''old'']))
     = [FileOpen ''f.tmp'', FileWrite ''f.tmp'' [CHR ''a'', LF, CHR ''b'', LF],
        Callback (Some (Error False ''disk full''))]
   \<and> files (writeToFile linux ''f'' [''a'', ''b'']
      (failing 1 \<lparr>err = Error False ''disk full'', debris = Some ''a''\<rparr> [''f'' \<mapsto> ''old''])) ''f''
     = Some ''old''"
proof -
  let ?w = "failing 1 \<lparr>err = Error False ''disk full'', debris = Some ''a''\<rparr> [''f'' \<mapsto> ''old'']"
  let ?w' = "writeToFile linux ''f'' [''a'', ''b''] ?w"
  have t: "trace ?w' = [FileOpen ''f.tmp'', FileWrite ''f.tmp'' [CHR ''a'', LF, CHR ''b'', LF]]
             @ [Callback (Some (Error False ''disk full''))]"
    unfolding writeToFile_failing_example by simp
  from writeToFile_atomic [of linux "''f''" "[''a'', ''b'']" ?w]
  obtain evs r where e: "trace ?w' = trace ?w @ evs @ [Callback r]"
    and k: "\<forall>ex. r = Some ex \<longrightarrow> files ?w' ''f'' = files ?w ''f''"
    by blast
  have "trace ?w = []"
    by (simp add: failing_def)
  with e t have "r = Some (Error False ''disk full'')"
    by simp
  with k have "files ?w' ''f'' = files ?w ''f''"
    by blast
  then have "files ?w' ''f'' = Some ''old''"
    by (simp add: failing_def)
  with t show ?thesis
    by simp
qed

subsection \<open>Runs of the task when no call fails\<close>

lemma did_simps [simp]:
  "files (did w evs fs) = fs" "calls (did w evs fs) = calls w + length evs"
  "trace (did w evs fs) = trace w @ evs" "fault_at (did w evs fs) = fault_at w"
  "did (did w evs fs) evs' fs' = did w (evs @ evs') fs'"
  by (simp_all add: did_def)

lemma did_Nil: "did w [] (files w) = w"
  by (simp add: did_def)

lemma calm_did: "calm w \<Longrightarrow> calm (did w evs fs)"
  by (simp add: calm_def)

lemma calm_now: "calm w \<Longrightarrow> fault_at w (calls w) = None"
  by (simp add: calm_def)

lemma os_open_calm:
  "calm w \<Longrightarrow> os_open p w = (Inr p, did w [FileOpen p] ((files w)(p \<mapsto> [])))"
  by (simp add: os_open_def prim_call_def calm_now did_def)

lemma file_write_calm:
  "calm w \<Longrightarrow> files w f = Some old \<Longrightarrow>
   file_write f a w = (Inr (), did w [FileWrite f a] ((files w)(f \<mapsto> old @ a)))"
  by (simp add: file_write_def prim_call_def calm_now did_def)

lemma file_flush_calm:
  "calm w \<Longrightarrow> file_flush f w = (Inr (), did w [FileFlush f] (files w))"
  by (simp add: file_flush_def prim_call_def calm_now did_def)

lemma file_close_calm:
  "calm w \<Longrightarrow> file_close f w = (Inr (), did w [FileClose f] (files w))"
  by (simp add: file_close_def prim_call_def calm_now did_def)

lemma os_move_calm:
  "calm w \<Longrightarrow> files w src = Some bytes \<Longrightarrow>
   os_move src dst w = (Inr (), did w [FileMove src dst] ((files w)(src := None, dst \<mapsto> bytes)))"
  by (simp add: os_move_def prim_call_def calm_now did_def)

lemma writeChunk_calm:
  "calm w \<Longrightarrow> files w f = Some old \<Longrightarrow>
   writeChunk lb f b w =
     (Inr (), b\<lparr>buf := [], bufLen := 0\<rparr>,
      did w [FileWrite f (join lb (buf b) @ lb)] ((files w)(f \<mapsto> old @ join lb (buf b) @ lb)))"
  by (simp add: writeChunk_def file_write_calm encode_def Let_def)

lemma write_loop_calm:
  "calm w \<Longrightarrow> files w f = Some old \<Longrightarrow>
   write_loop lb f data b w =
     (Inr (), snd (chunk_loop lb data b),
      did w (map (FileWrite f) (fst (chunk_loop lb data b)))
        ((files w)(f \<mapsto> old @ concat (fst (chunk_loop lb data b)))))"
proof (induction data arbitrary: b w old)
  case Nil
  then show ?case
    by (simp add: did_def map_upd_triv)
next
  case (Cons line rest)
  show ?case
  proof (cases "bufLen (push line b) \<ge> BUFFER_SIZE")
    case False
    with Cons.IH [OF Cons.prems, of "push line b"] show ?thesis
      by (simp add: Let_def)
  next
    case True
    define c where "c = join lb (buf (push line b)) @ lb"
    define w1 where "w1 = did w [FileWrite f c] ((files w)(f \<mapsto> old @ c))"
    define b1 where "b1 = (push line b)\<lparr>buf := [], bufLen := 0\<rparr>"
    obtain cs b' where cl: "chunk_loop lb rest b1 = (cs, b')"
      by (cases "chunk_loop lb rest b1")
    have wc: "writeChunk lb f (push line b) w = (Inr (), b1, w1)"
      unfolding c_def w1_def b1_def using Cons.prems by (rule writeChunk_calm)
    have "calm w1" and "files w1 f = Some (old @ c)"
      using Cons.prems by (simp_all add: w1_def calm_did)
    from Cons.IH [OF this, of b1]
    have "write_loop lb f rest b1 w1
            = (Inr (), b', did w1 (map (FileWrite f) cs) ((files w1)(f \<mapsto> (old @ c) @ concat cs)))"
      unfolding cl fst_conv snd_conv .
    also have "did w1 (map (FileWrite f) cs) ((files w1)(f \<mapsto> (old @ c) @ concat cs))
            = did w (map (FileWrite f) (c # cs)) ((files w)(f \<mapsto> old @ concat (c # cs)))"
      by (simp add: w1_def)
    finally have "write_loop lb f rest b1 w1
            = (Inr (), b', did w (map (FileWrite f) (c # cs)) ((files w)(f \<mapsto> old @ concat (c # cs))))" .
    moreover have "chunk_loop lb (line # rest) b = (c # cs, b')"
      using True cl by (simp add: Let_def c_def b1_def)
    moreover have "write_loop lb f (line # rest) b w = write_loop lb f rest b1 w1"
      using True wc by (simp add: Let_def)
    ultimately show ?thesis
      by (simp add: fun_upd_def)
  qed
qed

lemma write_task_calm:
  assumes "calm w"
  shows "write_task e file data w =
     (Inr (),
      did w ([FileOpen (file @ ''.tmp'')] @ map (FileWrite (file @ ''.tmp'')) (chunks (lineBreak e) data)
             @ (if flush_exposed e then [FileFlush (file @ ''.tmp'')] else [])
             @ [FileClose (file @ ''.tmp''), FileMove (file @ ''.tmp'') file])
        ((files w)(file @ ''.tmp'' := None, file \<mapsto> concat (chunks (lineBreak e) data))))"
proof -
  define tmp where "tmp = file @ ''.tmp''"
  define lb where "lb = lineBreak e"
  define w1 where "w1 = did w [FileOpen tmp] ((files w)(tmp \<mapsto> []))"
  obtain cs b where cl: "chunk_loop lb data \<lparr>buf = [], bufLen = 0\<rparr> = (cs, b)"
    by (cases "chunk_loop lb data \<lparr>buf = [], bufLen = 0\<rparr>")
  have o: "os_open tmp w = (Inr tmp, w1)"
    unfolding w1_def using assms by (rule os_open_calm)
  have c1: "calm w1" and f1: "files w1 tmp = Some []"
    using assms by (simp_all add: w1_def calm_did)
  define w2 where "w2 = did w1 (map (FileWrite tmp) cs) ((files w1)(tmp \<mapsto> concat cs))"
  have l: "write_loop lb tmp data \<lparr>buf = [], bufLen = 0\<rparr> w1 = (Inr (), b, w2)"
    using write_loop_calm [OF c1 f1, of lb data "\<lparr>buf = [], bufLen = 0\<rparr>"] cl by (simp add: w2_def)
  have c2: "calm w2" and f2: "files w2 tmp = Some (concat cs)"
    using c1 by (simp_all add: w2_def calm_did)
  define fin where "fin = (if bufLen b \<noteq> 0 then [join lb (buf b) @ lb] else [])"
  define w3 where "w3 = did w2 (map (FileWrite tmp) fin) ((files w2)(tmp \<mapsto> concat cs @ concat fin))"
  have ch: "chunks lb data = cs @ fin"
    using cl by (simp add: chunks_def fin_def)
  have fl: "\<exists>b'. (if bufLen b \<noteq> 0 then writeChunk lb tmp b w2 else (Inr (), b, w2)) = (Inr (), b', w3)"
  proof (cases "bufLen b \<noteq> 0")
    case True
    then show ?thesis
      by (simp add: writeChunk_calm [OF c2 f2] w3_def fin_def)
  next
    case False
    then have "w3 = w2"
      using f2 by (simp add: w3_def fin_def did_def map_upd_triv)
    with False show ?thesis
      by simp
  qed
  then obtain b3 where fl: "(if bufLen b \<noteq> 0 then writeChunk lb tmp b w2 else (Inr (), b, w2)) = (Inr (), b3, w3)"
    by blast
  have c3: "calm w3" and f3: "files w3 tmp = Some (concat cs @ concat fin)"
    using c2 by (simp_all add: w3_def calm_did)
  define ffl where "ffl = (if flush_exposed e then [FileFlush tmp] else [])"
  define w4 where "w4 = did w3 ffl (files w3)"
  have ff: "(if flush_exposed e then file_flush tmp w3 else (Inr (), w3)) = (Inr (), w4)"
    using c3 by (simp add: file_flush_calm w4_def ffl_def did_Nil)
  have c4: "calm w4" and f4: "files w4 tmp = Some (concat cs @ concat fin)"
    using c3 f3 by (simp_all add: w4_def calm_did)
  define w5 where "w5 = did w4 [FileClose tmp] (files w4)"
  have cl5: "file_close tmp w4 = (Inr (), w5)"
    unfolding w5_def using c4 by (rule file_close_calm)
  have c5: "calm w5" and f5: "files w5 tmp = Some (concat cs @ concat fin)"
    using c4 f4 by (simp_all add: w5_def calm_did)
  define w6 where "w6 = did w5 [FileMove tmp file] ((files w5)(tmp := None, file \<mapsto> concat cs @ concat fin))"
  have mv: "os_move tmp file w5 = (Inr (), w6)"
    unfolding w6_def using c5 f5 by (rule os_move_calm)
  have "write_task e file data w = (Inr (), w6)"
    unfolding write_task_def Let_def tmp_def [symmetric] lb_def [symmetric]
    by (simp only: o l fl ff cl5 mv prod.case sum.case)
  moreover have "w6 = did w ([FileOpen tmp] @ map (FileWrite tmp) (chunks lb data) @ ffl
                               @ [FileClose tmp, FileMove tmp file])
                         ((files w)(tmp := None, file \<mapsto> concat (chunks lb data)))"
    by (simp add: w6_def w5_def w4_def w3_def w2_def w1_def ch did_def)
  ultimately show ?thesis
    by (simp add: tmp_def lb_def ffl_def)
qed

subsection \<open>The chunks of a run\<close>

lemma join_terminated: "xs \<noteq> [] \<Longrightarrow> join lb xs @ lb = terminated lb xs"
  by (induction lb xs rule: join.induct) (simp_all add: terminated_def)

lemma terminated_append: "terminated lb (xs @ ys) = terminated lb xs @ terminated lb ys"
  by (simp add: terminated_def)

lemma push_simps [simp]:
  "buf (push line b) = buf b @ [line]" "bufLen (push line b) = bufLen b + length line"
  by (simp_all add: push_def)

lemma chunk_loop_inv:
  "bufLen b = length (concat (buf b)) \<Longrightarrow> bufLen b < BUFFER_SIZE \<Longrightarrow>
   bufLen (snd (chunk_loop lb data b)) = length (concat (buf (snd (chunk_loop lb data b))))
   \<and> bufLen (snd (chunk_loop lb data b)) < BUFFER_SIZE"
proof (induction data arbitrary: b)
  case Nil
  then show ?case by simp
next
  case (Cons line rest)
  show ?case
  proof (cases "bufLen (push line b) \<ge> BUFFER_SIZE")
    case True
    have "0 < BUFFER_SIZE" by (simp add: BUFFER_SIZE_def)
    with Cons.IH [of "(push line b)\<lparr>buf := [], bufLen := 0\<rparr>"] True show ?thesis
      by (simp add: Let_def split_beta)
  next
    case False
    with Cons.IH [of "push line b"] Cons.prems show ?thesis
      by (simp add: Let_def)
  qed
qed

lemma chunk_loop_small:
  "bufLen b + length (concat data) < BUFFER_SIZE \<Longrightarrow>
   chunk_loop lb data b = ([], b\<lparr>buf := buf b @ data, bufLen := bufLen b + length (concat data)\<rparr>)"
proof (induction data arbitrary: b)
  case Nil
  then show ?case by simp
next
  case (Cons line rest)
  from Cons.prems have "\<not> bufLen (push line b) \<ge> BUFFER_SIZE"
    by simp
  moreover from Cons.prems have "bufLen (push line b) + length (concat rest) < BUFFER_SIZE"
    by simp
  ultimately show ?case
    using Cons.IH [of "push line b"] by (simp add: Let_def push_def)
qed

lemma chunk_loop_content:
  "\<exists>flushed. buf b @ data = flushed @ buf (snd (chunk_loop lb data b))
     \<and> concat (fst (chunk_loop lb data b)) = terminated lb flushed"
proof (induction data arbitrary: b)
  case Nil
  have "buf b @ [] = [] @ buf (snd (chunk_loop lb [] b))
     \<and> concat (fst (chunk_loop lb [] b)) = terminated lb []"
    by (simp add: terminated_def)
  then show ?case by blast
next
  case (Cons line rest)
  show ?case
  proof (cases "bufLen (push line b) \<ge> BUFFER_SIZE")
    case True
    define b1 where "b1 = (push line b)\<lparr>buf := [], bufLen := 0\<rparr>"
    from Cons.IH [of b1] obtain fl where fl: "buf b1 @ rest = fl @ buf (snd (chunk_loop lb rest b1))"
      "concat (fst (chunk_loop lb rest b1)) = terminated lb fl"
      by blast
    have "buf b @ line # rest = ((buf b @ [line]) @ fl) @ buf (snd (chunk_loop lb (line # rest) b))"
      using True fl(1) by (simp add: Let_def split_beta b1_def)
    moreover have "concat (fst (chunk_loop lb (line # rest) b)) = terminated lb ((buf b @ [line]) @ fl)"
      using True fl(2) join_terminated [of "buf b @ [line]" lb]
      by (simp add: Let_def split_beta b1_def terminated_def)
    ultimately show ?thesis by blast
  next
    case False
    from Cons.IH [of "push line b"] obtain fl where
      "buf (push line b) @ rest = fl @ buf (snd (chunk_loop lb rest (push line b)))"
      "concat (fst (chunk_loop lb rest (push line b))) = terminated lb fl"
      by blast
    with False have "buf b @ line # rest = fl @ buf (snd (chunk_loop lb (line # rest) b))
       \<and> concat (fst (chunk_loop lb (line # rest) b)) = terminated lb fl"
      by (simp add: Let_def)
    then show ?thesis by blast
  qed
qed

lemma chunks_content:
  assumes "\<forall>l \<in> set data. l \<noteq> []"
  shows "concat (chunks lb data) = terminated lb data"
proof -
  define b0 :: buffer where "b0 = \<lparr>buf = [], bufLen = 0\<rparr>"
  obtain cs b where cl: "chunk_loop lb data b0 = (cs, b)"
    by (cases "chunk_loop lb data b0")
  have "0 < BUFFER_SIZE" by (simp add: BUFFER_SIZE_def)
  with chunk_loop_inv [of b0 lb data] cl have inv: "bufLen b = length (concat (buf b))"
    by (simp add: b0_def)
  from chunk_loop_content [of b0 data lb] cl obtain fl where fl: "data = fl @ buf b"
    "concat cs = terminated lb fl"
    by (auto simp: b0_def)
  show ?thesis
  proof (cases "bufLen b \<noteq> 0")
    case True
    with inv have "buf b \<noteq> []" by auto
    with True cl fl show ?thesis
      by (simp add: chunks_def b0_def [symmetric] join_terminated terminated_append)
  next
    case False
    with inv have e: "\<forall>l \<in> set (buf b). l = []" by simp
    from fl(1) assms have "\<forall>l \<in> set (buf b). l \<noteq> []" by auto
    with e have "buf b = []" by (cases "buf b") auto
    with False cl fl show ?thesis
      by (simp add: chunks_def b0_def [symmetric])
  qed
qed

lemma chunks_small:
  assumes "length (concat data) < BUFFER_SIZE"
  shows "chunks lb data = (if length (concat data) = 0 then [] else [join lb data @ lb])"
  using assms by (simp add: chunks_def chunk_loop_small)

lemma chunks_long_line:
  "BUFFER_SIZE \<le> length line \<Longrightarrow> chunks lb [line] = [line @ lb]"
  by (simp add: chunks_def Let_def)

subsection \<open>Reading back what was written\<close>

lemma lines_skip_breaks: "list_all isBreak bs \<Longrightarrow> lines (bs @ s) = lines s"
  by (induction bs) (simp_all add: lines_break)

lemma lines_terminated:
  assumes "lb \<noteq> []" and "list_all isBreak lb"
    and "\<forall>l \<in> set ls. l \<noteq> [] \<and> (\<forall>c \<in> set l. \<not> isBreak c)"
  shows "lines (terminated lb ls) = ls"
  using assms(3)
proof (induction ls)
  case Nil
  then show ?case by (simp add: terminated_def lines_Nil)
next
  case (Cons l ls)
  let ?nb = "\<lambda>c. \<not> isBreak c"
  from Cons.prems obtain c cs where l: "l = c # cs" and c: "\<not> isBreak c" and cs: "\<forall>x \<in> set cs. \<not> isBreak x"
    by (cases l) auto
  from assms(1,2) obtain d ds where lb: "lb = d # ds" and d: "isBreak d"
    by (cases lb) auto
  have t: "takeWhile ?nb (cs @ lb @ terminated lb ls) = cs"
    using cs d lb by (simp add: takeWhile_append2 takeWhile_tail)
  have dr: "dropWhile ?nb (cs @ lb @ terminated lb ls) = lb @ terminated lb ls"
    using cs d lb by (simp add: dropWhile_append2)
  have "lines (terminated lb (l # ls)) = lines (c # (cs @ lb @ terminated lb ls))"
    by (simp add: terminated_def l)
  also have "\<dots> = (c # cs) # lines (lb @ terminated lb ls)"
    using c by (simp add: lines_nonbreak t dr)
  also have "lines (lb @ terminated lb ls) = lines (terminated lb ls)"
    using assms(2) by (rule lines_skip_breaks)
  also have "lines (terminated lb ls) = ls"
    using Cons by simp
  finally show ?case by (simp add: l)
qed

lemma lineBreak_breaks: "lineBreak e \<noteq> [] \<and> list_all isBreak (lineBreak e)"
  by (simp add: lineBreak_def isBreak_def)

subsection \<open>Chunking\<close>

lemma writeToFile_calm:
  assumes "calm w" and "textEncoder e = None"
  shows "writeToFile e file data w =
     emit (Callback None)
       (did w ([FileOpen (file @ ''.tmp'')] @ map (FileWrite (file @ ''.tmp'')) (chunks (lineBreak e) data)
               @ (if flush_exposed e then [FileFlush (file @ ''.tmp'')] else [])
               @ [FileClose (file @ ''.tmp''), FileMove (file @ ''.tmp'') file])
          ((files w)(file @ ''.tmp'' := None, file \<mapsto> concat (chunks (lineBreak e) data))))"
  using assms by (simp add: writeToFile_def write_task_calm)

lemma flushes_append: "flushes (xs @ ys) = flushes xs + flushes ys"
  by (simp add: flushes_def)

lemma flushes_writes: "flushes (map (FileWrite f) cs) = length cs"
  by (induction cs) (simp_all add: flushes_def)

lemma flushes_simps:
  "flushes [] = 0" "flushes (FileWrite f a # evs) = Suc (flushes evs)"
  "flushes (FileOpen f # evs) = flushes evs" "flushes (FileFlush f # evs) = flushes evs"
  "flushes (FileClose f # evs) = flushes evs" "flushes (FileMove f g # evs) = flushes evs"
  "flushes (Callback r # evs) = flushes evs"
  by (simp_all add: flushes_def)

lemma writeToFile_calm_flushes:
  assumes "calm w" and "textEncoder e = None"
  shows "flushes (trace (writeToFile e file data w)) = flushes (trace w) + length (chunks (lineBreak e) data)"
  using assms
  by (simp add: writeToFile_calm emit_def flushes_append flushes_writes flushes_simps)

lemma writeChunk_buffer: "fst (snd (writeChunk lb f b w)) = b\<lparr>buf := [], bufLen := 0\<rparr>"
  by (simp add: writeChunk_def Let_def split_beta)

lemma write_loop_inv:
  "bufLen b = length (concat (buf b)) \<Longrightarrow> bufLen b < BUFFER_SIZE \<Longrightarrow>
   bufLen (fst (snd (write_loop lb f data b w))) = length (concat (buf (fst (snd (write_loop lb f data b w)))))
   \<and> bufLen (fst (snd (write_loop lb f data b w))) < BUFFER_SIZE"
proof (induction data arbitrary: b w)
  case Nil
  then show ?case by simp
next
  case (Cons line rest)
  show ?case
  proof (cases "bufLen (push line b) \<ge> BUFFER_SIZE")
    case False
    with Cons.IH [of "push line b" w] Cons.prems show ?thesis
      by (simp add: Let_def)
  next
    case True
    have pos: "0 < BUFFER_SIZE" by (simp add: BUFFER_SIZE_def)
    obtain r b2 w2 where c: "writeChunk lb f (push line b) w = (r, b2, w2)"
      by (cases "writeChunk lb f (push line b) w")
    with writeChunk_buffer [of lb f "push line b" w] have b2: "b2 = (push line b)\<lparr>buf := [], bufLen := 0\<rparr>"
      by simp
    show ?thesis
    proof (cases r)
      case (Inl ex)
      with c True b2 pos show ?thesis
        by (simp add: Let_def)
    next
      case (Inr u)
      with c True b2 pos Cons.IH [of b2 w2] show ?thesis
        by (simp add: Let_def)
    qed
  qed
qed

lemma chunk_loop_groups:
  "bufLen b = length (concat (buf b)) \<Longrightarrow> bufLen b < BUFFER_SIZE \<Longrightarrow>
   \<exists>groups. fst (chunk_loop lb data b) = map (chunk_of lb) groups
     \<and> buf b @ data = concat groups @ buf (snd (chunk_loop lb data b))
     \<and> list_all full_group groups"
proof (induction data arbitrary: b)
  case Nil
  have "fst (chunk_loop lb [] b) = map (chunk_of lb) []
     \<and> buf b @ [] = concat [] @ buf (snd (chunk_loop lb [] b)) \<and> list_all full_group []"
    by simp
  then show ?case by blast
next
  case (Cons line rest)
  show ?case
  proof (cases "bufLen (push line b) \<ge> BUFFER_SIZE")
    case True
    define b1 where "b1 = (push line b)\<lparr>buf := [], bufLen := 0\<rparr>"
    have "bufLen b1 = length (concat (buf b1))" and "bufLen b1 < BUFFER_SIZE"
      by (simp_all add: b1_def BUFFER_SIZE_def)
    from Cons.IH [OF this] obtain groups where g:
      "fst (chunk_loop lb rest b1) = map (chunk_of lb) groups"
      "buf b1 @ rest = concat groups @ buf (snd (chunk_loop lb rest b1))"
      "list_all full_group groups"
      by blast
    have full: "full_group (buf b @ [line])"
      using True Cons.prems by (simp add: full_group_def)
    have "fst (chunk_loop lb (line # rest) b) = map (chunk_of lb) ((buf b @ [line]) # groups)"
      using True g(1) by (simp add: Let_def split_beta b1_def chunk_of_def)
    moreover have "buf b @ line # rest
        = concat ((buf b @ [line]) # groups) @ buf (snd (chunk_loop lb (line # rest) b))"
      using True g(2) by (simp add: Let_def split_beta b1_def)
    moreover have "list_all full_group ((buf b @ [line]) # groups)"
      using full g(3) by simp
    ultimately show ?thesis by blast
  next
    case False
    have "bufLen (push line b) = length (concat (buf (push line b)))"
      using Cons.prems by simp
    moreover have "bufLen (push line b) < BUFFER_SIZE"
      using False by simp
    ultimately obtain groups where g:
      "fst (chunk_loop lb rest (push line b)) = map (chunk_of lb) groups"
      "buf (push line b) @ rest = concat groups @ buf (snd (chunk_loop lb rest (push line b)))"
      "list_all full_group groups"
      using Cons.IH [of "push line b"] by blast
    with False have "fst (chunk_loop lb (line # rest) b) = map (chunk_of lb) groups
       \<and> buf b @ line # rest = concat groups @ buf (snd (chunk_loop lb (line # rest) b))
       \<and> list_all full_group groups"
      by (simp add: Let_def)
    then show ?thesis by blast
  qed
qed

lemma write_loop_groups:
  assumes "calm v" and "files v f = Some old"
    and "bufLen b = length (concat (buf b))" and "bufLen b < BUFFER_SIZE"
  shows "\<exists>groups rest.
     buf b @ data = concat groups @ rest
     \<and> list_all full_group groups
     \<and> length (concat rest) < BUFFER_SIZE
     \<and> write_loop lb f data b v =
         (Inr (), \<lparr>buf = rest, bufLen = length (concat rest)\<rparr>,
          did v (map (\<lambda>g. FileWrite f (chunk_of lb g)) groups)
            ((files v)(f \<mapsto> old @ concat (map (chunk_of lb) groups))))"
proof -
  from chunk_loop_groups [OF assms(3,4), of lb data] obtain groups where g:
    "fst (chunk_loop lb data b) = map (chunk_of lb) groups"
    "buf b @ data = concat groups @ buf (snd (chunk_loop lb data b))"
    "list_all full_group groups"
    by blast
  define b' where "b' = snd (chunk_loop lb data b)"
  from chunk_loop_inv [OF assms(3,4), of lb data]
  have inv: "bufLen b' = length (concat (buf b'))" "bufLen b' < BUFFER_SIZE"
    by (simp_all add: b'_def)
  have b': "b' = \<lparr>buf = buf b', bufLen = length (concat (buf b'))\<rparr>"
    using inv(1) by simp
  have "write_loop lb f data b v =
         (Inr (), b', did v (map (FileWrite f) (map (chunk_of lb) groups))
            ((files v)(f \<mapsto> old @ concat (map (chunk_of lb) groups))))"
    using write_loop_calm [OF assms(1,2), of lb data b] g(1) by (simp add: b'_def)
  then have "write_loop lb f data b v =
         (Inr (), \<lparr>buf = buf b', bufLen = length (concat (buf b'))\<rparr>,
          did v (map (\<lambda>g. FileWrite f (chunk_of lb g)) groups)
            ((files v)(f \<mapsto> old @ concat (map (chunk_of lb) groups))))"
    using b' by (simp add: comp_def)
  with g(2,3) inv show ?thesis
    unfolding b'_def by (metis (no_types, lifting))
qed


lemma chunks_groups:
  "\<exists>groups rest.
     data = concat groups @ rest
     \<and> list_all full_group groups
     \<and> length (concat rest) < BUFFER_SIZE
     \<and> chunks lb data
         = map (chunk_of lb) groups @ (if length (concat rest) \<noteq> 0 then [chunk_of lb rest] else [])"
proof -
  define b0 :: buffer where "b0 = \<lparr>buf = [], bufLen = 0\<rparr>"
  have i: "bufLen b0 = length (concat (buf b0))" "bufLen b0 < BUFFER_SIZE"
    by (simp_all add: b0_def BUFFER_SIZE_def)
  from chunk_loop_groups [OF i, of lb data] obtain groups where g:
    "fst (chunk_loop lb data b0) = map (chunk_of lb) groups"
    "buf b0 @ data = concat groups @ buf (snd (chunk_loop lb data b0))"
    "list_all full_group groups"
    by blast
  define rest where "rest = buf (snd (chunk_loop lb data b0))"
  from chunk_loop_inv [OF i, of lb data]
  have inv: "bufLen (snd (chunk_loop lb data b0)) = length (concat rest)"
    "length (concat rest) < BUFFER_SIZE"
    by (simp_all add: rest_def)
  have "chunks lb data
         = map (chunk_of lb) groups @ (if length (concat rest) \<noteq> 0 then [chunk_of lb rest] else [])"
    using g(1) inv(1)
    by (simp add: chunks_def b0_def [symmetric] split_beta chunk_of_def rest_def)
  moreover from g(2) have "data = concat groups @ rest"
    by (simp add: b0_def rest_def)
  ultimately show ?thesis
    using g(3) inv(2) by blast
qed

text \<open>
  C6: appending a line adds it to the buffer and its length to the counter. At every
  line of the input the loop flushes a chunk exactly when the counter has reached
  \<open>0x8000 = 32768\<close> after the append, and goes on with the emptied buffer; below the
  threshold it goes on without a write. Every flush leaves the buffer empty and the
  counter at 0, so at each turn of the loop the counter is the character count of the
  buffer and below the threshold. Hence, when no call fails, the writes of a run are
  the consecutive groups of lines each of which reaches the threshold with its last
  line and not before, followed by one final write if the lines left over have any
  character. A single line of 40000 characters is written by the one flush of the
  loop, which leaves the counter at 0: the run has one flush and no final one.
\<close>

theorem chunking_invariant:
  "bufLen (push line b) = bufLen b + length line \<and> buf (push line b) = buf b @ [line]
   \<and> BUFFER_SIZE = 32768
   \<and> (BUFFER_SIZE \<le> bufLen b + length line \<longrightarrow>
        write_loop lb f (line # others) b w =
          (case writeChunk lb f (push line b) w of
             (Inl ex, b2, w') \<Rightarrow> (Inl ex, b2, w')
           | (Inr u, b2, w') \<Rightarrow> write_loop lb f others b2 w'))
   \<and> (bufLen b + length line < BUFFER_SIZE \<longrightarrow>
        write_loop lb f (line # others) b w = write_loop lb f others (push line b) w)
   \<and> (BUFFER_SIZE \<le> bufLen b + length line \<longrightarrow>
        write_loop lb f [line] b w = writeChunk lb f (push line b) w)
   \<and> (bufLen b + length line < BUFFER_SIZE \<longrightarrow>
        write_loop lb f [line] b w = (Inr (), push line b, w))
   \<and> fst (snd (writeChunk lb f b w)) = b\<lparr>buf := [], bufLen := 0\<rparr>
   \<and> (bufLen b = length (concat (buf b)) \<and> bufLen b < BUFFER_SIZE \<longrightarrow>
        bufLen (fst (snd (write_loop lb f data b w)))
          = length (concat (buf (fst (snd (write_loop lb f data b w)))))
        \<and> bufLen (fst (snd (write_loop lb f data b w))) < BUFFER_SIZE)
   \<and> (calm v \<and> files v f = Some old \<and> bufLen b = length (concat (buf b))
        \<and> bufLen b < BUFFER_SIZE \<longrightarrow>
        (\<exists>groups rest.
           buf b @ data = concat groups @ rest
           \<and> (\<forall>g \<in> set groups. g \<noteq> [] \<and> BUFFER_SIZE \<le> length (concat g)
                  \<and> length (concat (butlast g)) < BUFFER_SIZE)
           \<and> length (concat rest) < BUFFER_SIZE
           \<and> write_loop lb f data b v =
               (Inr (), \<lparr>buf = rest, bufLen = length (concat rest)\<rparr>,
                did v (map (\<lambda>g. FileWrite f (join lb g @ lb)) groups)
                  ((files v)(f \<mapsto> old @ concat (map (\<lambda>g. join lb g @ lb) groups))))))
   \<and> (calm w \<and> textEncoder e = None \<longrightarrow>
        (\<exists>groups rest.
           data = concat groups @ rest
           \<and> (\<forall>g \<in> set groups. g \<noteq> [] \<and> BUFFER_SIZE \<le> length (concat g)
                  \<and> length (concat (butlast g)) < BUFFER_SIZE)
           \<and> length (concat rest) < BUFFER_SIZE
           \<and> trace (writeToFile e target data w) =
               trace w @ [FileOpen (target @ ''.tmp'')]
               @ map (\<lambda>g. FileWrite (target @ ''.tmp'') (join (lineBreak e) g @ lineBreak e)) groups
               @ (if length (concat rest) \<noteq> 0
                  then [FileWrite (target @ ''.tmp'') (join (lineBreak e) rest @ lineBreak e)] else [])
               @ (if flush_exposed e then [FileFlush (target @ ''.tmp'')] else [])
               @ [FileClose (target @ ''.tmp''), FileMove (target @ ''.tmp'') target, Callback None]
           \<and> flushes (trace (writeToFile e target data w)) =
               flushes (trace w) + length groups + (if length (concat rest) \<noteq> 0 then 1 else 0)))
   \<and> lineBreak e = (if appinfo_OS e = ''WINNT'' then [CR, LF] else [LF])
   \<and> (textEncoder e = Some ex \<longrightarrow>
        trace (writeToFile e target data w) = trace w @ [Callback (Some ex)])
   \<and> (length line = 40000 \<and> calm v \<and> files v f = Some old \<longrightarrow>
        write_loop lb f [line] \<lparr>buf = [], bufLen = 0\<rparr> v
          = (Inr (), \<lparr>buf = [], bufLen = 0\<rparr>,
             did v [FileWrite f (line @ lb)] ((files v)(f \<mapsto> old @ line @ lb))))
   \<and> (length line = 40000 \<and> calm w \<and> textEncoder e = None \<longrightarrow>
        flushes (trace (writeToFile e target [line] w)) = flushes (trace w) + 1
        \<and> trace (writeToFile e target [line] w)
            = trace w @ [FileOpen (target @ ''.tmp''), FileWrite (target @ ''.tmp'') (line @ lineBreak e)]
              @ (if flush_exposed e then [FileFlush (target @ ''.tmp'')] else [])
              @ [FileClose (target @ ''.tmp''), FileMove (target @ ''.tmp'') target, Callback None])"
proof (intro conjI impI)
  show "BUFFER_SIZE \<le> bufLen b + length line \<Longrightarrow>
        write_loop lb f [line] b w = writeChunk lb f (push line b) w"
    by (cases "writeChunk lb f (push line b) w") (auto simp: Let_def split: sum.splits)
next
  assume "bufLen b = length (concat (buf b)) \<and> bufLen b < BUFFER_SIZE"
  then have "bufLen (fst (snd (write_loop lb f data b w)))
          = length (concat (buf (fst (snd (write_loop lb f data b w)))))
        \<and> bufLen (fst (snd (write_loop lb f data b w))) < BUFFER_SIZE"
    using write_loop_inv [of b lb f data w] by blast
  then show "bufLen (fst (snd (write_loop lb f data b w)))
          = length (concat (buf (fst (snd (write_loop lb f data b w)))))"
    and "bufLen (fst (snd (write_loop lb f data b w))) < BUFFER_SIZE"
    by simp_all
next
  assume "calm v \<and> files v f = Some old \<and> bufLen b = length (concat (buf b))
        \<and> bufLen b < BUFFER_SIZE"
  then have "calm v" "files v f = Some old" "bufLen b = length (concat (buf b))"
    "bufLen b < BUFFER_SIZE"
    by simp_all
  from write_loop_groups [OF this, of data lb]
  show "\<exists>groups rest.
           buf b @ data = concat groups @ rest
           \<and> (\<forall>g \<in> set groups. g \<noteq> [] \<and> BUFFER_SIZE \<le> length (concat g)
                  \<and> length (concat (butlast g)) < BUFFER_SIZE)
           \<and> length (concat rest) < BUFFER_SIZE
           \<and> write_loop lb f data b v =
               (Inr (), \<lparr>buf = rest, bufLen = length (concat rest)\<rparr>,
                did v (map (\<lambda>g. FileWrite f (join lb g @ lb)) groups)
                  ((files v)(f \<mapsto> old @ concat (map (\<lambda>g. join lb g @ lb) groups))))"
    unfolding list_all_iff full_group_def chunk_of_def .
next
  assume a: "calm w \<and> textEncoder e = None"
  from chunks_groups [of data "lineBreak e"] obtain groups rest where g:
    "data = concat groups @ rest"
    "\<forall>g \<in> set groups. g \<noteq> [] \<and> BUFFER_SIZE \<le> length (concat g)
                  \<and> length (concat (butlast g)) < BUFFER_SIZE"
    "length (concat rest) < BUFFER_SIZE"
    "chunks (lineBreak e) data
       = map (\<lambda>g. join (lineBreak e) g @ lineBreak e) groups
         @ (if length (concat rest) \<noteq> 0 then [join (lineBreak e) rest @ lineBreak e] else [])"
    unfolding list_all_iff full_group_def chunk_of_def by blast
  from a have t: "trace (writeToFile e target data w) =
               trace w @ [FileOpen (target @ ''.tmp'')]
               @ map (\<lambda>g. FileWrite (target @ ''.tmp'') (join (lineBreak e) g @ lineBreak e)) groups
               @ (if length (concat rest) \<noteq> 0
                  then [FileWrite (target @ ''.tmp'') (join (lineBreak e) rest @ lineBreak e)] else [])
               @ (if flush_exposed e then [FileFlush (target @ ''.tmp'')] else [])
               @ [FileClose (target @ ''.tmp''), FileMove (target @ ''.tmp'') target, Callback None]"
    by (simp add: writeToFile_calm g(4) emit_def comp_def)
  from a have n: "flushes (trace (writeToFile e target data w)) =
               flushes (trace w) + length groups + (if length (concat rest) \<noteq> 0 then 1 else 0)"
    by (simp add: writeToFile_calm_flushes g(4))
  from g(1,2,3) t n
  show "\<exists>groups rest.
           data = concat groups @ rest
           \<and> (\<forall>g \<in> set groups. g \<noteq> [] \<and> BUFFER_SIZE \<le> length (concat g)
                  \<and> length (concat (butlast g)) < BUFFER_SIZE)
           \<and> length (concat rest) < BUFFER_SIZE
           \<and> trace (writeToFile e target data w) =
               trace w @ [FileOpen (target @ ''.tmp'')]
               @ map (\<lambda>g. FileWrite (target @ ''.tmp'') (join (lineBreak e) g @ lineBreak e)) groups
               @ (if length (concat rest) \<noteq> 0
                  then [FileWrite (target @ ''.tmp'') (join (lineBreak e) rest @ lineBreak e)] else [])
               @ (if flush_exposed e then [FileFlush (target @ ''.tmp'')] else [])
               @ [FileClose (target @ ''.tmp''), FileMove (target @ ''.tmp'') target, Callback None]
           \<and> flushes (trace (writeToFile e target data w)) =
               flushes (trace w) + length groups + (if length (concat rest) \<noteq> 0 then 1 else 0)"
    by blast
next
  assume a: "length line = 40000 \<and> calm v \<and> files v f = Some old"
  then have "calm v" and "files v f = Some old"
    by simp_all
  from write_loop_calm [OF this, of lb "[line]" "\<lparr>buf = [], bufLen = 0\<rparr>"] a
  show "write_loop lb f [line] \<lparr>buf = [], bufLen = 0\<rparr> v
          = (Inr (), \<lparr>buf = [], bufLen = 0\<rparr>,
             did v [FileWrite f (line @ lb)] ((files v)(f \<mapsto> old @ line @ lb)))"
    by (simp add: Let_def BUFFER_SIZE_def push_def)
next
  assume a: "length line = 40000 \<and> calm w \<and> textEncoder e = None"
  then have c: "chunks (lineBreak e) [line] = [line @ lineBreak e]"
    by (simp add: chunks_long_line BUFFER_SIZE_def)
  from a show "flushes (trace (writeToFile e target [line] w)) = flushes (trace w) + 1"
    by (simp add: writeToFile_calm_flushes c)
  from a show "trace (writeToFile e target [line] w)
            = trace w @ [FileOpen (target @ ''.tmp''), FileWrite (target @ ''.tmp'') (line @ lineBreak e)]
              @ (if flush_exposed e then [FileFlush (target @ ''.tmp'')] else [])
              @ [FileClose (target @ ''.tmp''), FileMove (target @ ''.tmp'') target, Callback None]"
    by (simp add: writeToFile_calm c emit_def)
next
  assume "textEncoder e = Some ex"
  then show "trace (writeToFile e target data w) = trace w @ [Callback (Some ex)]"
    by (simp add: writeToFile_def emit_def)
qed (simp_all add: BUFFER_SIZE_def writeChunk_buffer Let_def lineBreak_def)


lemma calm_fresh: "calm (fresh fs)"
  by (simp add: calm_def fresh_def)

theorem chunking_invariant_witness:
  "flushes (trace (writeToFile linux ''f'' [replicate 40000 (CHR ''a'')] (fresh Map.empty))) = 1
   \<and> trace (writeToFile linux ''f'' [replicate 40000 (CHR ''a'')] (fresh Map.empty))
       = [FileOpen ''f.tmp'', FileWrite ''f.tmp'' (replicate 40000 (CHR ''a'') @ [LF]),
          FileFlush ''f.tmp'', FileClose ''f.tmp'', FileMove ''f.tmp'' ''f'', Callback None]
   \<and> write_loop [LF] ''f.tmp'' [replicate 40000 (CHR ''a'')] \<lparr>buf = [], bufLen = 0\<rparr>
         (fresh [''f.tmp'' \<mapsto> []])
       = (Inr (), \<lparr>buf = [], bufLen = 0\<rparr>,
          did (fresh [''f.tmp'' \<mapsto> []]) [FileWrite ''f.tmp'' (replicate 40000 (CHR ''a'') @ [LF])]
            [''f.tmp'' \<mapsto> replicate 40000 (CHR ''a'') @ [LF]])
   \<and> flushes (trace (writeToFile linux ''f''
         [replicate 20000 (CHR ''a''), replicate 20000 (CHR ''b''), replicate 20000 (CHR ''c'')]
         (fresh Map.empty))) = 2
   \<and> trace (writeToFile linux ''f''
         [replicate 20000 (CHR ''a''), replicate 20000 (CHR ''b''), replicate 20000 (CHR ''c'')]
         (fresh Map.empty))
       = [FileOpen ''f.tmp'',
          FileWrite ''f.tmp'' (replicate 20000 (CHR ''a'') @ [LF] @ replicate 20000 (CHR ''b'') @ [LF]),
          FileWrite ''f.tmp'' (replicate 20000 (CHR ''c'') @ [LF]),
          FileFlush ''f.tmp'', FileClose ''f.tmp'', FileMove ''f.tmp'' ''f'', Callback None]"
proof -
  let ?line = "replicate 40000 (CHR ''a'')"
  let ?three = "[replicate 20000 (CHR ''a''), replicate 20000 (CHR ''b''), replicate 20000 (CHR ''c'')]"
  let ?v = "fresh [''f.tmp'' \<mapsto> []]"
  note t = chunking_invariant [where line = ?line and v = ?v and old = "[]" and lb = "[LF]"
      and f = "''f.tmp''" and w = "fresh Map.empty" and e = linux and target = "''f''"]
  have c: "calm (fresh Map.empty)"
    by (rule calm_fresh)
  have e: "textEncoder linux = None"
    by (simp add: linux_def)
  have h1: "length ?line = 40000 \<and> calm ?v \<and> files ?v ''f.tmp'' = Some []"
    by (simp add: calm_fresh) (simp add: fresh_def)
  have h2: "length ?line = 40000 \<and> calm (fresh Map.empty) \<and> textEncoder linux = None"
    using c e by simp
  from t h1 have one: "write_loop [LF] ''f.tmp'' [?line] \<lparr>buf = [], bufLen = 0\<rparr> ?v
       = (Inr (), \<lparr>buf = [], bufLen = 0\<rparr>,
          did ?v [FileWrite ''f.tmp'' (?line @ [LF])] ((files ?v)(''f.tmp'' \<mapsto> [] @ ?line @ [LF])))"
    by blast
  from t h2 have two: "flushes (trace (writeToFile linux ''f'' [?line] (fresh Map.empty)))
       = flushes (trace (fresh Map.empty)) + 1"
    and three: "trace (writeToFile linux ''f'' [?line] (fresh Map.empty))
       = trace (fresh Map.empty) @ [FileOpen (''f'' @ ''.tmp''), FileWrite (''f'' @ ''.tmp'') (?line @ lineBreak linux)]
              @ (if flush_exposed linux then [FileFlush (''f'' @ ''.tmp'')] else [])
              @ [FileClose (''f'' @ ''.tmp''), FileMove (''f'' @ ''.tmp'') ''f'', Callback None]"
    by blast+
  have f: "files ?v = [''f.tmp'' \<mapsto> []]" "trace (fresh Map.empty) = []"
    by (simp_all add: fresh_def)
  have ch: "chunks (lineBreak linux) ?three
       = [replicate 20000 (CHR ''a'') @ [LF] @ replicate 20000 (CHR ''b'') @ [LF],
          replicate 20000 (CHR ''c'') @ [LF]]"
    by (simp add: chunks_def Let_def BUFFER_SIZE_def push_def linux_def lineBreak_def)
  have four: "flushes (trace (writeToFile linux ''f'' ?three (fresh Map.empty))) = 2"
    unfolding writeToFile_calm_flushes [OF c e] ch by (simp add: fresh_def flushes_def)
  have five: "trace (writeToFile linux ''f'' ?three (fresh Map.empty))
       = [FileOpen ''f.tmp'',
          FileWrite ''f.tmp'' (replicate 20000 (CHR ''a'') @ [LF] @ replicate 20000 (CHR ''b'') @ [LF]),
          FileWrite ''f.tmp'' (replicate 20000 (CHR ''c'') @ [LF]),
          FileFlush ''f.tmp'', FileClose ''f.tmp'', FileMove ''f.tmp'' ''f'', Callback None]"
    unfolding writeToFile_calm [OF c e] ch by (simp add: emit_def fresh_def linux_def)
  from one two three four five show ?thesis
    unfolding f by (simp add: flushes_def linux_def lineBreak_def)
qed

subsection \<open>Round trip\<close>

lemma calm_after_write:
  assumes "calm w" and "textEncoder e = None"
  shows "fault_at (writeToFile e file data w) (calls (writeToFile e file data w)) = None"
  using assms by (simp add: writeToFile_calm emit_def calm_def)

lemma written_content:
  assumes "calm w" and "textEncoder e = None"
  shows "files (writeToFile e file data w) file = Some (concat (chunks (lineBreak e) data))"
  using assms by (simp add: writeToFile_calm emit_def)

lemma delivered_write:
  assumes "calm w" and "textEncoder e = None"
  shows "delivered (trace (writeToFile e file data w)) = delivered (trace w)"
proof -
  have "delivered (map (FileWrite (file @ ''.tmp'')) cs) = []" for cs
    by (induction cs) simp_all
  with assms show ?thesis
    by (simp add: writeToFile_calm emit_def delivered_append)
qed

text \<open>
  C1, as amended: for every sequence of lines that are not empty and contain neither
  carriage return nor line feed (the empty sequence, a single line and inputs beyond
  32 KiB among them), \<open>writeToFile\<close> followed by \<open>readFromFile\<close> on the written file hands
  the listener the same lines in the same order, and then \<open>null\<close>. The file holds every
  line with the line break behind it.
\<close>

theorem round_trip:
  assumes "calm w" and "textEncoder e = None"
    and "\<forall>l \<in> set data. l \<noteq> [] \<and> CR \<notin> set l \<and> LF \<notin> set l"
    and "accepts process s data = Some s1"
  shows "files (writeToFile e file data w) file = Some (terminated (lineBreak e) data)
         \<and> lines (terminated (lineBreak e) data) = data
         \<and> delivered (trace (snd (readFromFile file process s tid (writeToFile e file data w))))
             = delivered (trace w) @ map Some data @ [None]"
proof -
  let ?w = "writeToFile e file data w"
  let ?content = "terminated (lineBreak e) data"
  from assms(3) have ne: "\<forall>l \<in> set data. l \<noteq> []"
    by simp
  from assms(3) have nb: "\<forall>l \<in> set data. l \<noteq> [] \<and> (\<forall>c \<in> set l. \<not> isBreak c)"
    by (auto simp: isBreak_def)
  have f: "files ?w file = Some ?content"
    using written_content [OF assms(1,2)] chunks_content [OF ne] by simp
  have l: "lines ?content = data"
    using lineBreak_breaks [of e] nb by (simp add: lines_terminated)
  have r: "fst (os_read file ?w) = Inr ?content"
    using f calm_after_write [OF assms(1,2)] by (simp add: fst_os_read)
  obtain r0 s2 where p: "process s1 None = (r0, s2)"
    by (cases "process s1 None")
  from assms(4) l have a: "accepts process s (lines ?content) = Some s1"
    by simp
  from readFromFile_accepted [OF r a p, of tid]
  have "delivered (trace (snd (readFromFile file process s tid ?w)))
          = delivered (trace ?w) @ map Some data @ [None]"
    by (simp add: delivered_append delivered_calls_of delivered_hooks l)
  with f l delivered_write [OF assms(1,2)] show ?thesis
    by simp
qed

theorem round_trip_witness:
  "delivered (trace (snd (readFromFile ''f'' recorder [] None
      (writeToFile linux ''f'' [replicate 40000 (CHR ''a''), ''b''] (fresh Map.empty)))))
     = [Some (replicate 40000 (CHR ''a'')), Some ''b'', None]
   \<and> files (writeToFile linux ''f'' [replicate 40000 (CHR ''a''), ''b''] (fresh Map.empty)) ''f''
     = Some (replicate 40000 (CHR ''a'') @ [LF, CHR ''b'', LF])
   \<and> flushes (trace (writeToFile linux ''f'' [replicate 40000 (CHR ''a''), ''b''] (fresh Map.empty))) = 2"
proof -
  let ?data = "[replicate 40000 (CHR ''a''), ''b'']"
  have c: "calm (fresh Map.empty)"
    by (rule calm_fresh)
  have e: "textEncoder linux = None"
    by (simp add: linux_def)
  have d: "\<forall>l \<in> set ?data. l \<noteq> [] \<and> CR \<notin> set l \<and> LF \<notin> set l"
    by simp
  have a: "accepts recorder [] ?data = Some [Some (replicate 40000 (CHR ''a'')), Some ''b'']"
    by (simp add: recorder_def)
  have ch: "chunks (lineBreak linux) ?data = [replicate 40000 (CHR ''a'') @ [LF], [CHR ''b'', LF]]"
    by (simp add: chunks_def Let_def BUFFER_SIZE_def push_def linux_def lineBreak_def)
  have fl: "flushes (trace (writeToFile linux ''f'' ?data (fresh Map.empty))) = 2"
    by (simp add: writeToFile_calm_flushes [OF c e] ch) (simp add: fresh_def flushes_def)
  from round_trip [OF c e d a, of "''f''" None] fl show ?thesis
    by (simp add: terminated_def linux_def lineBreak_def) (simp add: fresh_def)
qed

text \<open>
  The claim as it stands, for every sequence of strings, fails: the empty line of
  \<open>a\<close>, \<open>\<close>, \<open>b\<close> is written as a blank line, and the scanner drops blank lines.
\<close>

theorem round_trip_counterexample:
  "delivered (trace (snd (readFromFile ''f'' recorder [] None
      (writeToFile linux ''f'' [''a'', '''', ''b''] (fresh Map.empty)))))
     = [Some ''a'', Some ''b'', None]
   \<and> delivered (trace (snd (readFromFile ''f'' recorder [] None
      (writeToFile linux ''f'' [''a'', '''', ''b''] (fresh Map.empty)))))
     \<noteq> map Some [''a'', '''', ''b''] @ [None]"
proof -
  let ?data = "[''a'', '''', ''b'']"
  let ?w = "writeToFile linux ''f'' ?data (fresh Map.empty)"
  let ?content = "[CHR ''a'', LF, LF, CHR ''b'', LF]"
  have c: "calm (fresh Map.empty)"
    by (rule calm_fresh)
  have e: "textEncoder linux = None"
    by (simp add: linux_def)
  have ch: "chunks (lineBreak linux) ?data = [?content]"
    by (simp add: chunks_small BUFFER_SIZE_def) (simp add: linux_def lineBreak_def)
  have f: "files ?w ''f'' = Some ?content"
    by (simp add: written_content [OF c e] ch)
  have r: "fst (os_read ''f'' ?w) = Inr ?content"
    using f calm_after_write [OF c e] by (simp add: fst_os_read)
  have l: "lines ?content = [''a'', ''b'']"
    by (simp add: lines_break lines_nonbreak lines_Nil isBreak_def)
  have a: "accepts recorder [] (lines ?content) = Some [Some ''a'', Some ''b'']"
    by (simp add: l recorder_def)
  have p: "recorder [Some ''a'', Some ''b''] None = (None, [Some ''a'', Some ''b'', None])"
    by (simp add: recorder_def)
  have t: "delivered (trace ?w) = []"
    unfolding delivered_write [OF c e] by (simp add: fresh_def)
  have "delivered (trace (snd (readFromFile ''f'' recorder [] None ?w))) = [Some ''a'', Some ''b'', None]"
    by (simp add: readFromFile_accepted [OF r a p] delivered_append delivered_calls_of delivered_hooks t l)
  then show ?thesis
    by simp
qed

subsection \<open>The final flush and small inputs\<close>

text \<open>
  C3: the final flush is guarded by the character counter, \<open>if (bufLen)\<close>, not by the
  buffer. For the input of one empty line the loop ends with that line in the buffer
  and the counter at 0, so no flush follows and the line never reaches the file; the
  same empty line with a line \<open>a\<close> behind it is written, as a blank line.
\<close>

theorem final_flush_skipped:
  "write_loop (lineBreak linux) ''f.tmp'' [''''] \<lparr>buf = [], bufLen = 0\<rparr> w
     = (Inr (), \<lparr>buf = [''''], bufLen = 0\<rparr>, w)
   \<and> trace (writeToFile linux ''f'' [''''] (fresh Map.empty))
     = [FileOpen ''f.tmp'', FileFlush ''f.tmp'', FileClose ''f.tmp'', FileMove ''f.tmp'' ''f'',
        Callback None]
   \<and> trace (writeToFile linux ''f'' ['''', ''a''] (fresh Map.empty))
     = [FileOpen ''f.tmp'', FileWrite ''f.tmp'' [LF, CHR ''a'', LF], FileFlush ''f.tmp'',
        FileClose ''f.tmp'', FileMove ''f.tmp'' ''f'', Callback None]"
proof -
  have c: "calm (fresh Map.empty)"
    by (rule calm_fresh)
  have e: "textEncoder linux = None"
    by (simp add: linux_def)
  have one: "chunks (lineBreak linux) [''''] = []"
    by (simp add: chunks_small BUFFER_SIZE_def)
  have two: "chunks (lineBreak linux) ['''', ''a''] = [[LF, CHR ''a'', LF]]"
    by (simp add: chunks_small BUFFER_SIZE_def) (simp add: linux_def lineBreak_def)
  have "write_loop (lineBreak linux) ''f.tmp'' [''''] \<lparr>buf = [], bufLen = 0\<rparr> w
     = (Inr (), \<lparr>buf = [''''], bufLen = 0\<rparr>, w)"
    by (simp add: Let_def push_def BUFFER_SIZE_def)
  moreover have "trace (writeToFile linux ''f'' [''''] (fresh Map.empty))
     = [FileOpen ''f.tmp'', FileFlush ''f.tmp'', FileClose ''f.tmp'', FileMove ''f.tmp'' ''f'',
        Callback None]"
    unfolding writeToFile_calm [OF c e] one by (simp add: emit_def fresh_def linux_def)
  moreover have "trace (writeToFile linux ''f'' ['''', ''a''] (fresh Map.empty))
     = [FileOpen ''f.tmp'', FileWrite ''f.tmp'' [LF, CHR ''a'', LF], FileFlush ''f.tmp'',
        FileClose ''f.tmp'', FileMove ''f.tmp'' ''f'', Callback None]"
    unfolding writeToFile_calm [OF c e] two by (simp add: emit_def fresh_def linux_def)
  ultimately show ?thesis
    by (intro conjI)
qed

text \<open>
  An input below the threshold is written by the final flush alone when its lines
  have a character, as the lines joined by the line break with one more behind them;
  the empty input leaves the file empty.
\<close>

lemma writeToFile_small:
  assumes "calm w" and "textEncoder e = None" and "length (concat data) < BUFFER_SIZE"
  shows "(0 < length (concat data) \<longrightarrow>
            flushes (trace (writeToFile e file data w)) = flushes (trace w) + 1
            \<and> files (writeToFile e file data w) file = Some (join (lineBreak e) data @ lineBreak e))
         \<and> (data = [] \<longrightarrow>
            flushes (trace (writeToFile e file data w)) = flushes (trace w)
            \<and> files (writeToFile e file data w) file = Some [])
         \<and> join lb [''a'', ''b'', ''c''] @ lb = ''a'' @ lb @ ''b'' @ lb @ ''c'' @ lb"
  using assms
  by (auto simp: writeToFile_calm_flushes written_content chunks_small)

text \<open>
  C7: for the input of one empty line, a non-empty sequence below the threshold, the
  run has no flush and the target file is empty, where the lines joined and terminated
  by the line break are the one line break. The final flush is guarded by the
  character counter, as under C3.
\<close>

theorem blank_input_not_written:
  "flushes (trace (writeToFile linux ''f'' [''''] (fresh Map.empty))) = 0
   \<and> files (writeToFile linux ''f'' [''''] (fresh Map.empty)) ''f'' = Some []
   \<and> files (writeToFile linux ''f'' [''''] (fresh Map.empty)) ''f''
       \<noteq> Some (join (lineBreak linux) [''''] @ lineBreak linux)"
proof -
  have c: "calm (fresh Map.empty)"
    by (rule calm_fresh)
  have e: "textEncoder linux = None"
    by (simp add: linux_def)
  have ch: "chunks (lineBreak linux) [''''] = []"
    by (simp add: chunks_small BUFFER_SIZE_def)
  have "flushes (trace (writeToFile linux ''f'' [''''] (fresh Map.empty))) = 0"
    unfolding writeToFile_calm_flushes [OF c e] ch by (simp add: fresh_def flushes_def)
  moreover have "files (writeToFile linux ''f'' [''''] (fresh Map.empty)) ''f'' = Some []"
    unfolding written_content [OF c e] ch by simp
  moreover have "join (lineBreak linux) [''''] @ lineBreak linux = [LF]"
    by (simp add: linux_def lineBreak_def)
  ultimately show ?thesis
    by simp
qed

end
